theory Spec2Isabelle
  imports Main
begin

section \<open>Errors and sequencing\<close>

text \<open>
  The Python exceptions that the modelled functions of \<^verbatim>\<open>synth.py\<close> can raise.
  A function that may raise returns \<open>error + 'a\<close>, with \<open>Inl\<close> for the exception.
\<close>

datatype error = KeyError | IndexError | ValueError | AttributeError

definition bind_err :: "error + 'a \<Rightarrow> ('a \<Rightarrow> error + 'b) \<Rightarrow> error + 'b" where
  "bind_err r f = (case r of Inl e \<Rightarrow> Inl e | Inr v \<Rightarrow> f v)"

definition lookup :: "('k \<rightharpoonup> 'v) \<Rightarrow> 'k \<Rightarrow> error + 'v" where
  \<comment> \<open>\<^verbatim>\<open>d[k]\<close> on a dict\<close>
  "lookup d k = (case d k of None \<Rightarrow> Inl KeyError | Some v \<Rightarrow> Inr v)"

section \<open>Strings\<close>

text \<open>
  Strings are lists of characters. The character classes below are those of Python's
  \<^verbatim>\<open>str\<close> methods restricted to the code points 0 to 255, which is what \<open>char\<close> holds.
\<close>

definition is_digit :: "char \<Rightarrow> bool" where
  \<comment> \<open>\<^verbatim>\<open>\d\<close> and \<^verbatim>\<open>[0-9]\<close>\<close>
  "is_digit c = (c \<in> set ''0123456789'')"

definition is_space :: "char \<Rightarrow> bool" where
  \<comment> \<open>the characters \<^verbatim>\<open>str.split()\<close> separates at\<close>
  "is_space c = (of_char c \<in> set [9, 10, 11, 12, 13, 28, 29, 30, 31, 32, 133, 160 :: nat])"

definition is_punct :: "char \<Rightarrow> bool" where
  \<comment> \<open>membership in \<^verbatim>\<open>string.punctuation\<close>\<close>
  "is_punct c = (let n = of_char c :: nat in
     (33 \<le> n \<and> n \<le> 47) \<or> (58 \<le> n \<and> n \<le> 64) \<or> (91 \<le> n \<and> n \<le> 96) \<or> (123 \<le> n \<and> n \<le> 126))"

definition lower_char :: "char \<Rightarrow> char" where
  "lower_char c = (let n = of_char c :: nat in
     if (65 \<le> n \<and> n \<le> 90) \<or> (192 \<le> n \<and> n \<le> 222 \<and> n \<noteq> 215) then char_of (n + 32) else c)"

definition lower :: "string \<Rightarrow> string" where
  \<comment> \<open>\<^verbatim>\<open>str.lower()\<close>\<close>
  "lower s = map lower_char s"

fun split_acc :: "string \<Rightarrow> string \<Rightarrow> string list" where
  "split_acc cur [] = (if cur = [] then [] else [cur])"
| "split_acc cur (c # cs) =
     (if is_space c then (if cur = [] then split_acc [] cs else cur # split_acc [] cs)
      else split_acc (cur @ [c]) cs)"

definition split :: "string \<Rightarrow> string list" where
  \<comment> \<open>\<^verbatim>\<open>str.split()\<close> without arguments: the maximal runs of non-space characters\<close>
  "split s = split_acc [] s"

fun replace :: "string \<Rightarrow> string \<Rightarrow> string \<Rightarrow> string" where
  \<comment> \<open>\<^verbatim>\<open>s.replace(old, new)\<close>: every occurrence of \<open>old\<close>, scanning from the left\<close>
  "replace [] old new = (if old = [] then new else [])"
| "replace (c # cs) old new =
     (if old = [] then new @ c # replace cs old new
      else if take (length old) (c # cs) = old
        then new @ replace (drop (length old) (c # cs)) old new
      else c # replace cs old new)"

definition lstrip0 :: "string \<Rightarrow> string" where
  \<comment> \<open>\<^verbatim>\<open>s.lstrip('0')\<close>\<close>
  "lstrip0 s = dropWhile (\<lambda>c. c = CHR ''0'') s"

section \<open>The date pattern\<close>

text \<open>
  \<^verbatim>\<open>date_format = re.compile(r'(\d+)/(\d+)/?(\d{2,})?')\<close>.
  Every quantifier of the pattern is greedy, and what follows the second group can match
  the empty string, so the first path the matcher tries succeeds whenever any does: the
  longest run of digits, a slash, the longest run of digits, a slash when there is one,
  and the longest run of digits when it has two digits or more.
  \<open>date_match\<close> is \<^verbatim>\<open>date_format.match\<close>: groups 1, 2 and 3 and the matched text.
\<close>

definition date_match :: "string \<Rightarrow> (string \<times> string \<times> string option \<times> string) option" where
  "date_match s =
     (let g1 = takeWhile is_digit s; r1 = dropWhile is_digit s in
      if g1 = [] then None
      else (case r1 of
          [] \<Rightarrow> None
        | c # r2 \<Rightarrow>
            if c \<noteq> CHR ''/'' then None
            else
              let g2 = takeWhile is_digit r2; r3 = dropWhile is_digit r2 in
              if g2 = [] then None
              else
                let sl = (if r3 \<noteq> [] \<and> hd r3 = CHR ''/'' then ''/'' else '''');
                    r4 = drop (length sl) r3;
                    g3 = takeWhile is_digit r4
                in if 2 \<le> length g3
                   then Some (g1, g2, Some g3, g1 @ ''/'' @ g2 @ sl @ g3)
                   else Some (g1, g2, None, g1 @ ''/'' @ g2 @ sl)))"

fun date_search :: "string \<Rightarrow> string option" where
  \<comment> \<open>\<^verbatim>\<open>date_format.search(s).group(0)\<close>: the match at the leftmost position that has one\<close>
  "date_search [] = None"
| "date_search (c # cs) =
     (case date_match (c # cs) of
        Some (g1, g2, g3, g0) \<Rightarrow> Some g0
      | None \<Rightarrow> date_search cs)"

section \<open>Utterance: date verbalisation\<close>

definition dys :: "string \<rightharpoonup> string" where
  "dys = map_of
    [(''1'', ''first''), (''2'', ''second''), (''3'', ''third''), (''4'', ''fourth''),
     (''5'', ''fifth''), (''6'', ''sixth''), (''7'', ''seventh''), (''8'', ''eighth''),
     (''9'', ''ninth''), (''10'', ''tenth''), (''11'', ''eleventh''), (''12'', ''twelfth''),
     (''13'', ''thirteenth''), (''14'', ''fourteenth''), (''15'', ''fifteenth''),
     (''16'', ''sixteenth''), (''17'', ''seventeenth''), (''18'', ''eighteenth''),
     (''19'', ''nineteenth''), (''20'', ''twentieth''), (''21'', ''twenty-first''),
     (''22'', ''twenty-second''), (''23'', ''twenty-third''), (''24'', ''twenty-fourth''),
     (''25'', ''twenty-fifth''), (''26'', ''twenty-sixth''), (''27'', ''twenty-seventh''),
     (''28'', ''twenty-eighth''), (''29'', ''twenty-ninth''), (''30'', ''thirtieth''),
     (''31'', ''thirty-first'')]"

definition mths :: "string \<rightharpoonup> string" where
  "mths = map_of
    [(''1'', ''january''), (''2'', ''february''), (''3'', ''march''), (''4'', ''april''),
     (''5'', ''may''), (''6'', ''june''), (''7'', ''july''), (''8'', ''august''),
     (''9'', ''september''), (''10'', ''october''), (''11'', ''november''),
     (''12'', ''december'')]"

definition yrs_ones :: "string \<rightharpoonup> string" where
  "yrs_ones = map_of
    [(''1'', ''one''), (''2'', ''two''), (''3'', ''three''), (''4'', ''four''),
     (''5'', ''five''), (''6'', ''six''), (''7'', ''seven''), (''8'', ''eight''),
     (''9'', ''nine'')]"

definition yrs_tens :: "string \<rightharpoonup> string" where
  "yrs_tens = map_of
    [(''0'', ''o''), (''2'', ''twenty''), (''3'', ''thirty''), (''4'', ''forty''),
     (''5'', ''fifty''), (''6'', ''sixty''), (''7'', ''seventy''), (''8'', ''eighty''),
     (''9'', ''ninety'')]"

definition yrs_10to19 :: "string \<rightharpoonup> string" where
  "yrs_10to19 = map_of
    [(''10'', ''ten''), (''11'', ''eleven''), (''12'', ''twelve''), (''13'', ''thirteen''),
     (''14'', ''fourteen''), (''15'', ''fifteen''), (''16'', ''sixteen''),
     (''17'', ''seventeen''), (''18'', ''eighteen''), (''19'', ''nineteen'')]"

definition normalise_dates :: "string \<Rightarrow> error + string" where
  "normalise_dates date =
     (case date_match date of
        None \<Rightarrow> Inl AttributeError
      | Some (g1, g2, g3, g0) \<Rightarrow>
          let day = lstrip0 g1; month = lstrip0 g2 in
          (case g3 of
             Some year0 \<Rightarrow>
               let year = (if length year0 \<noteq> 2 then drop (length year0 - 2) year0 else year0) in
               if year \<in> dom yrs_10to19
               then bind_err (lookup mths month) (\<lambda>m.
                    bind_err (lookup dys day) (\<lambda>d.
                    bind_err (lookup yrs_10to19 year) (\<lambda>y.
                    Inr (m @ '' '' @ d @ '' nineteen '' @ y))))
               else bind_err (lookup mths month) (\<lambda>m.
                    bind_err (lookup dys day) (\<lambda>d.
                    bind_err (lookup yrs_tens [year ! 0]) (\<lambda>t.
                    bind_err (lookup yrs_ones [year ! 1]) (\<lambda>u.
                    Inr (m @ '' '' @ d @ '' nineteen '' @ t @ '' '' @ u)))))
           | None \<Rightarrow>
               bind_err (lookup mths month) (\<lambda>m.
               bind_err (lookup dys day) (\<lambda>d.
               Inr (m @ '' '' @ d)))))"

section \<open>Utterance: phrase normalisation\<close>

text \<open>
  \<open>normalise_phrase\<close> rewrites \<^verbatim>\<open>self.phrase\<close> and calls itself until the phrase has no
  date left. Every rewriting removes the slash of the date it found and the spoken form
  it puts in has none, which is why the recursion ends; the facts below establish that.
\<close>

lemma count_list_drop_le: "count_list (drop n s) c \<le> count_list s c"
proof -
  have "count_list s c = count_list (take n s) c + count_list (drop n s) c"
    by (metis append_take_drop_id count_list_append)
  then show ?thesis by simp
qed

lemma replace_count_le:
  "old \<noteq> [] \<Longrightarrow> c \<notin> set new \<Longrightarrow> count_list (replace s old new) c \<le> count_list s c"
proof (induction s old new rule: replace.induct)
  case (1 old new)
  then show ?case by simp
next
  case (2 x xs old new)
  show ?case
  proof (cases "take (length old) (x # xs) = old")
    case True
    have "count_list (replace (drop (length old) (x # xs)) old new) c
        \<le> count_list (drop (length old) (x # xs)) c"
      using "2.IH"(2) "2.prems" True by simp
    also have "\<dots> \<le> count_list (x # xs) c" by (rule count_list_drop_le)
    finally show ?thesis using "2.prems" True by (simp add: count_list_0_iff)
  next
    case False
    then show ?thesis using "2.IH"(3) "2.prems" by simp
  qed
qed

lemma replace_count_less:
  "old \<noteq> [] \<Longrightarrow> c \<notin> set new \<Longrightarrow> c \<in> set old \<Longrightarrow> s = pre @ old @ post
    \<Longrightarrow> count_list (replace s old new) c < count_list s c"
proof (induction s old new arbitrary: pre rule: replace.induct)
  case (1 old new)
  then show ?case by simp
next
  case (2 x xs old new)
  show ?case
  proof (cases "take (length old) (x # xs) = old")
    case True
    have pos: "0 < count_list old c"
      using "2.prems"(3) count_list_0_iff[of old c] by auto
    have "count_list (x # xs) c
        = count_list (take (length old) (x # xs)) c + count_list (drop (length old) (x # xs)) c"
      by (metis append_take_drop_id count_list_append)
    then have parts: "count_list (x # xs) c
        = count_list old c + count_list (drop (length old) (x # xs)) c"
      using True by simp
    have "count_list (replace (drop (length old) (x # xs)) old new) c
        \<le> count_list (drop (length old) (x # xs)) c"
      using "2.prems"(1,2) by (rule replace_count_le)
    then show ?thesis using "2.prems"(1,2) True pos parts by (simp add: count_list_0_iff)
  next
    case False
    then have "pre \<noteq> []" using "2.prems"(4) by auto
    then obtain p ps where pre: "pre = p # ps" by (cases pre) auto
    then have xs: "xs = ps @ old @ post" using "2.prems"(4) by simp
    have "count_list (replace xs old new) c < count_list xs c"
      using "2.IH"(3)[OF "2.prems"(1) False "2.prems"(1) "2.prems"(2) "2.prems"(3) xs] .
    then show ?thesis using False "2.prems"(1) by simp
  qed
qed

lemma date_match_prefix:
  assumes "date_match s = Some (g1, g2, g3, g0)"
  shows "\<exists>post. s = g0 @ post" and "CHR ''/'' \<in> set g0" and "g0 \<noteq> []"
proof -
  let ?r1 = "dropWhile is_digit s"
  from assms obtain r2 where r1: "?r1 = CHR ''/'' # r2" and g1: "g1 = takeWhile is_digit s"
    by (auto simp: date_match_def Let_def split: if_splits list.splits)
  let ?r3 = "dropWhile is_digit r2"
  let ?sl = "(if ?r3 \<noteq> [] \<and> hd ?r3 = CHR ''/'' then ''/'' else '''')"
  let ?r4 = "drop (length ?sl) ?r3"
  have g2: "g2 = takeWhile is_digit r2"
    using assms r1 by (auto simp: date_match_def Let_def split: if_splits list.splits)
  have s: "s = g1 @ ''/'' @ g2 @ ?r3"
    using r1 g1 g2 by (metis append_Cons append_Nil takeWhile_dropWhile_id)
  have r3: "?r3 = ?sl @ ?r4"
    by (cases ?r3) auto
  have r4: "?r4 = takeWhile is_digit ?r4 @ dropWhile is_digit ?r4" by simp
  have g0: "g0 = g1 @ ''/'' @ g2 @ ?sl @ takeWhile is_digit ?r4 \<or> g0 = g1 @ ''/'' @ g2 @ ?sl"
    using assms r1 g1 g2 by (auto simp: date_match_def Let_def split: if_splits list.splits)
  then show "\<exists>post. s = g0 @ post"
  proof
    assume "g0 = g1 @ ''/'' @ g2 @ ?sl @ takeWhile is_digit ?r4"
    then have "s = g0 @ dropWhile is_digit ?r4"
      using s r3 r4 by (metis append.assoc)
    then show ?thesis ..
  next
    assume "g0 = g1 @ ''/'' @ g2 @ ?sl"
    then have "s = g0 @ ?r4" using s r3 by (metis append.assoc)
    then show ?thesis ..
  qed
  from g0 show "CHR ''/'' \<in> set g0" by auto
  from g0 show "g0 \<noteq> []" by auto
qed

lemma date_search_occurs:
  "date_search s = Some g \<Longrightarrow> (\<exists>pre post. s = pre @ g @ post) \<and> CHR ''/'' \<in> set g \<and> g \<noteq> []"
proof (induction s)
  case Nil
  then show ?case by simp
next
  case (Cons c cs)
  show ?case
  proof (cases "date_match (c # cs)")
    case None
    then have "date_search cs = Some g" using Cons.prems by simp
    then obtain pre post where "cs = pre @ g @ post" and rest: "CHR ''/'' \<in> set g" "g \<noteq> []"
      using Cons.IH by blast
    then have "c # cs = (c # pre) @ g @ post" by simp
    then show ?thesis using rest by blast
  next
    case (Some m)
    obtain g1 g2 g3 g0 where m: "m = (g1, g2, g3, g0)" by (cases m) auto
    then have g: "g = g0" using Some Cons.prems by simp
    from date_match_prefix[OF Some[unfolded m]] obtain post where
      "c # cs = g0 @ post" "CHR ''/'' \<in> set g0" "g0 \<noteq> []" by blast
    then have "c # cs = [] @ g @ post" using g by simp
    then show ?thesis using \<open>CHR ''/'' \<in> set g0\<close> \<open>g0 \<noteq> []\<close> g by blast
  qed
qed

lemma mths_no_slash: "mths k = Some w \<Longrightarrow> CHR ''/'' \<notin> set w"
  by (auto simp: mths_def split: if_splits)

lemma dys_no_slash: "dys k = Some w \<Longrightarrow> CHR ''/'' \<notin> set w"
  by (auto simp: dys_def split: if_splits)

lemma yrs_ones_no_slash: "yrs_ones k = Some w \<Longrightarrow> CHR ''/'' \<notin> set w"
  by (auto simp: yrs_ones_def split: if_splits)

lemma yrs_tens_no_slash: "yrs_tens k = Some w \<Longrightarrow> CHR ''/'' \<notin> set w"
  by (auto simp: yrs_tens_def split: if_splits)

lemma yrs_10to19_no_slash: "yrs_10to19 k = Some w \<Longrightarrow> CHR ''/'' \<notin> set w"
  by (auto simp: yrs_10to19_def split: if_splits)

lemma normalise_dates_no_slash:
  "normalise_dates g = Inr d \<Longrightarrow> CHR ''/'' \<notin> set d"
  by (auto simp: normalise_dates_def Let_def bind_err_def lookup_def
      split: option.splits if_splits sum.splits prod.splits
      dest: mths_no_slash dys_no_slash yrs_ones_no_slash yrs_tens_no_slash yrs_10to19_no_slash)

definition words_of :: "string \<Rightarrow> string list" where
  \<comment> \<open>the loop over \<^verbatim>\<open>self.phrase.split()\<close>: punctuation deleted, then lowercased\<close>
  "words_of phrase = map (\<lambda>word. lower (filter (\<lambda>c. \<not> is_punct c) word)) (split phrase)"

function normalise_phrase :: "string \<Rightarrow> error + (string \<times> string list)" where
  \<comment> \<open>takes \<^verbatim>\<open>self.phrase\<close>; returns its new value and the list of words\<close>
  "normalise_phrase phrase =
     (case date_search phrase of
        None \<Rightarrow> Inr (phrase, words_of phrase)
      | Some date_group \<Rightarrow>
          (case normalise_dates date_group of
             Inl e \<Rightarrow> Inl e
           | Inr d \<Rightarrow>
               (case normalise_phrase (replace phrase date_group d) of
                  Inl e \<Rightarrow> Inl e
                | Inr (phrase', ws) \<Rightarrow> Inr (phrase', words_of phrase'))))"
  by pat_completeness auto
termination
proof (relation "measure (\<lambda>s. count_list s (CHR ''/''))")
  show "wf (measure (\<lambda>s. count_list s (CHR ''/'')))" by simp
next
  fix phrase date_group d
  assume found: "date_search phrase = Some date_group"
    and spoken: "normalise_dates date_group = Inr d"
  from date_search_occurs[OF found] obtain pre post where
    "phrase = pre @ date_group @ post" "CHR ''/'' \<in> set date_group" "date_group \<noteq> []"
    by blast
  moreover have "CHR ''/'' \<notin> set d" using spoken by (rule normalise_dates_no_slash)
  ultimately have "count_list (replace phrase date_group d) (CHR ''/'')
      < count_list phrase (CHR ''/'')"
    by (metis replace_count_less)
  then show "(replace phrase date_group d, phrase) \<in> measure (\<lambda>s. count_list s (CHR ''/''))"
    by simp
qed

declare normalise_phrase.simps [simp del]

fun phone_loop ::
  "(string \<rightharpoonup> string list list) \<Rightarrow> string list \<Rightarrow> string list \<times> string list
    \<Rightarrow> error + (string list \<times> string list)" where
  \<comment> \<open>the loop over the words; the state is \<^verbatim>\<open>list_of_phones\<close> and the lines printed\<close>
  "phone_loop dictionary [] (list_of_phones, out) = Inr (list_of_phones, out)"
| "phone_loop dictionary (word # ws) (list_of_phones, out) =
     (case dictionary word of
        None \<Rightarrow>
          phone_loop dictionary ws
            (list_of_phones, out @ [''Word not found in the dictionary: '' @ word])
      | Some prons \<Rightarrow>
          (case prons of
             [] \<Rightarrow> Inl IndexError
           | p # _ \<Rightarrow> phone_loop dictionary ws (list_of_phones @ p, out)))"

definition get_phone_seq ::
  "(string \<rightharpoonup> string list list) \<Rightarrow> string \<Rightarrow> string option
    \<Rightarrow> error + (string list \<times> string list \<times> string)" where
  \<comment> \<open>takes the dictionary, \<^verbatim>\<open>self.phrase\<close> and \<^verbatim>\<open>reverse\<close>; returns the phones, the lines
     printed and the new \<^verbatim>\<open>self.phrase\<close>\<close>
  "get_phone_seq dictionary self_phrase reverse =
     bind_err (normalise_phrase self_phrase) (\<lambda>(self_phrase', ws).
       let phrase = (if reverse = Some ''words'' then rev ws else ws) in
       bind_err (phone_loop dictionary phrase ([], [])) (\<lambda>(list_of_phones, out).
         Inr (if reverse = Some ''phones'' then rev list_of_phones else list_of_phones,
              out, self_phrase')))"

section \<open>Synth: phones to diphone names\<close>

fun diphone_loop :: "string list \<Rightarrow> nat list \<Rightarrow> string list \<Rightarrow> string list" where
  \<comment> \<open>the loop over \<^verbatim>\<open>range(len(l_phones_fil))\<close>; reading past the end raises IndexError,
     which the loop catches to stop\<close>
  "diphone_loop l [] l_diphones = l_diphones"
| "diphone_loop l (i # is) l_diphones =
     (if i + 1 < length l
      then diphone_loop l is (l_diphones @ [l ! i @ ''-'' @ l ! (i + 1) @ ''.wav''])
      else l_diphones)"

definition phones_to_diphones :: "string list \<Rightarrow> string list" where
  "phones_to_diphones phones =
     (let l_phones = map lower phones;
          l_phones_fil = map (filter (\<lambda>c. \<not> is_digit c)) l_phones;
          l_phones_fil = ''pau'' # l_phones_fil @ [''pau'']
      in diphone_loop l_phones_fil [0..<length l_phones_fil] [])"

section \<open>Floating point\<close>

text \<open>
  The ramps multiply samples by Python floats. A float is kept as a pair \<open>(m, e)\<close> of
  integers that stands for \<open>m * 2 ^ e\<close>; every operation rounds its exact result to 53
  significant bits, ties to even, as IEEE 754 binary64 does. The exponent range of
  binary64 is not modelled: sample rates and samples that fit a machine word stay far
  inside it.
\<close>

type_synonym float = "int \<times> int"

function bitlen :: "int \<Rightarrow> nat" where
  \<comment> \<open>the number of binary digits of a positive integer\<close>
  "bitlen n = (if n \<le> 0 then 0 else Suc (bitlen (n div 2)))"
  by pat_completeness auto
termination
  by (relation "measure nat") auto

declare bitlen.simps [simp del]

definition rne_div :: "int \<Rightarrow> int \<Rightarrow> int" where
  \<comment> \<open>the quotient of two positive integers rounded to the nearest integer, a tie to
     the even one\<close>
  "rne_div a b =
     (let q = a div b; r = a mod b in
      if 2 * r < b then q
      else if b < 2 * r then q + 1
      else if even q then q else q + 1)"

definition fl_quot :: "int \<Rightarrow> int \<Rightarrow> float" where
  \<comment> \<open>the float nearest to \<open>p / q\<close>, for \<open>q > 0\<close>\<close>
  "fl_quot p q =
     (if p = 0 then (0, 0)
      else
        let a = \<bar>p\<bar>;
            e0 = int (bitlen a) - int (bitlen q) - 53;
            num = (if 0 \<le> e0 then a else a * 2 ^ nat (- e0));
            den = (if 0 \<le> e0 then q * 2 ^ nat e0 else q);
            e = (if 2 ^ 53 * den \<le> num then e0 + 1 else e0);
            den = (if 2 ^ 53 * den \<le> num then 2 * den else den)
        in (sgn p * rne_div num den, e))"

definition py_truediv :: "int \<Rightarrow> int \<Rightarrow> float" where
  \<comment> \<open>\<^verbatim>\<open>i / n\<close> on integers, for \<open>n > 0\<close>\<close>
  "py_truediv i n = fl_quot i n"

definition fl_round :: "int \<Rightarrow> int \<Rightarrow> float" where
  \<comment> \<open>the float nearest to \<open>m * 2 ^ e\<close>\<close>
  "fl_round m e = (if 0 \<le> e then fl_quot (m * 2 ^ nat e) 1 else fl_quot m (2 ^ nat (- e)))"

definition fl_mul :: "int \<Rightarrow> float \<Rightarrow> float" where
  \<comment> \<open>\<^verbatim>\<open>a * b\<close> for an integer sample \<open>a\<close> and a float \<open>b\<close>: the sample becomes a float,
     and the product is rounded\<close>
  "fl_mul a b =
     (case fl_round a 0 of (ma, ea) \<Rightarrow> (case b of (mb, eb) \<Rightarrow> fl_round (ma * mb) (ea + eb)))"

definition py_int :: "float \<Rightarrow> int" where
  \<comment> \<open>\<^verbatim>\<open>int(x)\<close>: truncation towards zero\<close>
  "py_int x =
     (case x of (m, e) \<Rightarrow>
        if 0 \<le> e then m * 2 ^ nat e else sgn m * (\<bar>m\<bar> div 2 ^ nat (- e)))"

section \<open>Arrays\<close>

text \<open>
  A waveform is a numpy array of samples; the tests of the repository read the loaded
  data with numpy methods. The model keeps an array as the list of its samples.
  Slicing an array with \<^verbatim>\<open>a[i:j]\<close> gives a view: writing into the view writes into the
  array. The class \<^verbatim>\<open>Audio\<close> that declares the sample type is not among the sources.
\<close>

type_synonym samples = "int list"
  \<comment> \<open>Modelled from the spec: the sample type that \<^verbatim>\<open>simpleaudio.Audio\<close> declares is
     missing; the spec says signed integer amplitudes, so a sample is an integer and
     adding two samples is integer addition.\<close>

definition py_index :: "nat \<Rightarrow> int \<Rightarrow> nat" where
  \<comment> \<open>a slice bound on a sequence of the given length: a negative bound counts from
     the end, and every bound is clipped to the sequence\<close>
  "py_index len i = (if i < 0 then nat (max 0 (int len + i)) else min len (nat i))"

definition slice :: "'a list \<Rightarrow> int \<Rightarrow> int \<Rightarrow> 'a list" where
  \<comment> \<open>\<^verbatim>\<open>xs[i:j]\<close>\<close>
  "slice xs i j =
     (let a = py_index (length xs) i; b = py_index (length xs) j in take (b - a) (drop a xs))"

definition np_split :: "'a list \<Rightarrow> int list \<Rightarrow> 'a list list" where
  \<comment> \<open>\<^verbatim>\<open>np.split(ary, indices)\<close> with a list of indices: the slices between
     neighbouring division points\<close>
  "np_split ary indices =
     (let div_points = [0] @ indices @ [int (length ary)]
      in map (\<lambda>k. slice ary (div_points ! k) (div_points ! (k + 1))) [0..<length indices + 1])"

definition np_add :: "samples \<Rightarrow> samples \<Rightarrow> error + samples" where
  \<comment> \<open>\<^verbatim>\<open>np.add\<close> on two one-dimensional arrays: elementwise when the lengths agree, an
     array of length one is broadcast, any other pair of lengths raises ValueError\<close>
  "np_add xs ys =
     (if length xs = length ys then Inr (map (\<lambda>(x, y). x + y) (zip xs ys))
      else if length xs = 1 then Inr (map (\<lambda>y. hd xs + y) ys)
      else if length ys = 1 then Inr (map (\<lambda>x. x + hd ys) xs)
      else Inl ValueError)"

section \<open>Synth: smoothing the ends of a unit\<close>

fun assign_loop :: "nat list \<Rightarrow> nat \<Rightarrow> nat \<Rightarrow> samples \<Rightarrow> samples \<Rightarrow> error + samples" where
  \<comment> \<open>the loop \<^verbatim>\<open>view[i] = values_updated[i]\<close>, where the view begins at \<open>start\<close> in the
     array and has \<open>len\<close> elements; an index outside either list raises IndexError\<close>
  "assign_loop [] start len values_updated diphone_array = Inr diphone_array"
| "assign_loop (i # is) start len values_updated diphone_array =
     (if i < length values_updated \<and> i < len
      then assign_loop is start len values_updated
             (diphone_array[start + i := values_updated ! i])
      else Inl IndexError)"

definition smooth_end :: "samples \<Rightarrow> nat \<Rightarrow> error + samples" where
  \<comment> \<open>returns the contents of \<^verbatim>\<open>diphone_array\<close> after the call: the array is changed in
     place and returned\<close>
  "smooth_end diphone_array nr_of_values =
     (let working_range = [0..<nr_of_values];
          list_of_factors = map (\<lambda>i. py_truediv (int i) (int nr_of_values)) working_range;
          values_and_factors =
            zip (slice diphone_array (- int nr_of_values) (int (length diphone_array)))
                (rev list_of_factors);
          values_updated = map (\<lambda>(a, b). py_int (fl_mul a b)) values_and_factors;
          start = py_index (length diphone_array) (- int nr_of_values)
      in assign_loop working_range start (length diphone_array - start)
           values_updated diphone_array)"

definition smooth_beg :: "samples \<Rightarrow> nat \<Rightarrow> error + samples" where
  "smooth_beg diphone_array nr_of_values =
     (let list_of_factors =
            map (\<lambda>i. py_truediv (int i) (int nr_of_values)) [0..<nr_of_values];
          values_and_factors = zip (slice diphone_array 0 (int nr_of_values)) list_of_factors;
          values_updated = map (\<lambda>(a, b). py_int (fl_mul a b)) values_and_factors
      in assign_loop [0..<nr_of_values] 0 (py_index (length diphone_array) (int nr_of_values))
           values_updated diphone_array)"

section \<open>Synth: synthesis\<close>

text \<open>
  The inventory \<^verbatim>\<open>self.diphones\<close> maps a file name to its array. The list
  \<^verbatim>\<open>list_for_smoothing\<close> holds the arrays of the inventory themselves, not copies, so
  the model keeps it as the list of their names and reads and writes the arrays
  through the inventory.
\<close>

record synth =
  wav_folder :: string
  rate :: nat
  diphones :: "string \<rightharpoonup> samples"

record audio =
  data :: samples
  audio_rate :: nat

fun resolve_loop ::
  "(string \<rightharpoonup> samples) \<Rightarrow> bool \<Rightarrow> string list \<Rightarrow> samples \<times> string list \<times> string list
    \<Rightarrow> samples \<times> string list \<times> string list" where
  \<comment> \<open>the loop over the diphone names; the state is \<^verbatim>\<open>concat_ary\<close>,
     \<^verbatim>\<open>list_for_smoothing\<close> and the lines printed\<close>
  "resolve_loop dips smooth_concat [] st = st"
| "resolve_loop dips smooth_concat (diphone # ds) (concat_ary, list_for_smoothing, out) =
     (case dips diphone of
        None \<Rightarrow>
          resolve_loop dips smooth_concat ds
            (concat_ary, list_for_smoothing,
             out @ [''Missing diphone: '' @ diphone @ '', proceeding as normal.''])
      | Some unit \<Rightarrow>
          if smooth_concat
          then resolve_loop dips smooth_concat ds
                 (concat_ary, list_for_smoothing @ [diphone], out)
          else resolve_loop dips smooth_concat ds
                 (concat_ary @ unit, list_for_smoothing, out))"

definition at_ref ::
  "(samples \<Rightarrow> nat \<Rightarrow> error + samples) \<Rightarrow> (string \<rightharpoonup> samples) \<Rightarrow> string \<Rightarrow> nat
    \<Rightarrow> error + (string \<rightharpoonup> samples)" where
  \<comment> \<open>a smoothing function called on the array that the name refers to\<close>
  "at_ref f dips r n = bind_err (f (the (dips r)) n) (\<lambda>a. Inr (dips(r \<mapsto> a)))"

fun smooth_middle ::
  "(string \<rightharpoonup> samples) \<Rightarrow> string list \<Rightarrow> nat \<Rightarrow> error + (string \<rightharpoonup> samples)" where
  \<comment> \<open>the loop over \<^verbatim>\<open>list_for_smoothing[1:-1]\<close>\<close>
  "smooth_middle dips [] n = Inr dips"
| "smooth_middle dips (element # es) n =
     bind_err (at_ref smooth_beg dips element n) (\<lambda>dips1.
     bind_err (at_ref smooth_end dips1 element n) (\<lambda>dips2.
     smooth_middle dips2 es n))"

definition smooth_pass ::
  "(string \<rightharpoonup> samples) \<Rightarrow> string list \<Rightarrow> nat
    \<Rightarrow> error + ((string \<rightharpoonup> samples) \<times> string list)" where
  \<comment> \<open>"first smooth the diphones": returns the inventory afterwards and \<^verbatim>\<open>smooth_dip\<close>\<close>
  "smooth_pass dips list_for_smoothing n =
     (if list_for_smoothing = [] then Inl IndexError
      else
        bind_err (at_ref smooth_end dips (hd list_for_smoothing) n) (\<lambda>dips1.
        bind_err (smooth_middle dips1 (slice list_for_smoothing 1 (- 1)) n) (\<lambda>dips2.
        bind_err (at_ref smooth_beg dips2 (last list_for_smoothing) n) (\<lambda>dips3.
        Inr (dips3,
             [hd list_for_smoothing] @ slice list_for_smoothing 1 (- 1)
               @ [last list_for_smoothing])))))"

fun overlap_loop ::
  "(string \<rightharpoonup> samples) \<Rightarrow> string list \<Rightarrow> nat \<Rightarrow> nat list \<Rightarrow> samples list
    \<Rightarrow> error + samples list" where
  \<comment> \<open>"extract the values for overlap and add them together"; the state is
     \<^verbatim>\<open>val_to_add\<close>, and the IndexError of \<^verbatim>\<open>smooth_dip[i + 1]\<close> ends the loop\<close>
  "overlap_loop dips smooth_dip n [] val_to_add = Inr val_to_add"
| "overlap_loop dips smooth_dip n (i # is) val_to_add =
     (if i + 1 < length smooth_dip
      then
        bind_err
          (np_add
             (slice (the (dips (smooth_dip ! i))) (- int n)
                (int (length (the (dips (smooth_dip ! i))))))
             (slice (the (dips (smooth_dip ! (i + 1)))) 0 (int n)))
          (\<lambda>v. overlap_loop dips smooth_dip n is (val_to_add @ [v]))
      else Inr val_to_add)"

definition dip_arr_of :: "(string \<rightharpoonup> samples) \<Rightarrow> string list \<Rightarrow> nat \<Rightarrow> samples list" where
  \<comment> \<open>"split diphones into parts which need trimming" and "extract the correct arrays"\<close>
  "dip_arr_of dips smooth_dip n =
     (let dip_val_border0 = np_split (the (dips (hd smooth_dip))) [- int n];
          dip_val_middle =
            map (\<lambda>element. np_split (the (dips element)) [int n, - int n])
              (slice smooth_dip 1 (- 1));
          dip_val_border1 = np_split (the (dips (last smooth_dip))) [int n]
      in [dip_val_border0 ! 0] @ map (\<lambda>element. element ! 1) dip_val_middle
           @ [dip_val_border1 ! 1])"

fun concat_loop :: "samples list \<Rightarrow> samples list \<Rightarrow> nat list \<Rightarrow> samples \<Rightarrow> error + samples" where
  \<comment> \<open>the last loop: an overlap, then the next trimmed unit\<close>
  "concat_loop val_to_add dip_arr [] concat_ary = Inr concat_ary"
| "concat_loop val_to_add dip_arr (i # is) concat_ary =
     (if i < length val_to_add \<and> i + 1 < length dip_arr
      then concat_loop val_to_add dip_arr is (concat_ary @ val_to_add ! i @ dip_arr ! (i + 1))
      else Inl IndexError)"

definition crossfade ::
  "(string \<rightharpoonup> samples) \<Rightarrow> string list \<Rightarrow> nat \<Rightarrow> samples
    \<Rightarrow> error + (samples \<times> (string \<rightharpoonup> samples))" where
  \<comment> \<open>the body of \<^verbatim>\<open>if smooth_concat:\<close>; returns \<^verbatim>\<open>concat_ary\<close> and the inventory\<close>
  "crossfade dips list_for_smoothing affected_values concat_ary =
     bind_err (smooth_pass dips list_for_smoothing affected_values) (\<lambda>(dips', smooth_dip).
     bind_err (overlap_loop dips' smooth_dip affected_values [0..<length smooth_dip] [])
       (\<lambda>val_to_add.
     let dip_arr = dip_arr_of dips' smooth_dip affected_values in
     bind_err (concat_loop val_to_add dip_arr [0..<length val_to_add] (concat_ary @ dip_arr ! 0))
       (\<lambda>concat_ary'. Inr (concat_ary', dips'))))"

definition affected_values_of :: "nat \<Rightarrow> nat" where
  \<comment> \<open>\<^verbatim>\<open>int(self.rate / 100)\<close>\<close>
  "affected_values_of r = nat (py_int (py_truediv (int r) 100))"

definition synthesise ::
  "synth \<Rightarrow> string list \<Rightarrow> string option \<Rightarrow> bool \<Rightarrow> error + (audio \<times> string list \<times> synth)" where
  \<comment> \<open>returns the audio, the lines printed and the synthesiser afterwards\<close>
  "synthesise self phones reverse smooth_concat =
     (let affected_values = affected_values_of (rate self) in
      case resolve_loop (diphones self) smooth_concat (phones_to_diphones phones) ([], [], [])
      of (concat_ary, list_for_smoothing, out) \<Rightarrow>
        bind_err
          (if smooth_concat
           then crossfade (diphones self) list_for_smoothing affected_values concat_ary
           else Inr (concat_ary, diphones self))
          (\<lambda>(concat_ary', dips').
             Inr (\<lparr>data = (if reverse = Some ''signal'' then rev concat_ary' else concat_ary'),
                   audio_rate = rate self\<rparr>,
                  out,
                  self\<lparr>diphones := dips'\<rparr>)))"

section \<open>Notions for stating the properties of the smoothing\<close>

definition unit_length :: "(string \<rightharpoonup> samples) \<Rightarrow> string \<Rightarrow> nat" where
  \<comment> \<open>the number of samples of the unit of that name\<close>
  "unit_length dips k = length (the (dips k))"

definition overlap_segment :: "(string \<rightharpoonup> samples) \<Rightarrow> string \<Rightarrow> string \<Rightarrow> nat \<Rightarrow> samples" where
  \<comment> \<open>in the words of the specification: the elementwise sum of the last \<open>n\<close> samples of
     the earlier unit and the first \<open>n\<close> samples of the later unit\<close>
  "overlap_segment dips a b n =
     map (\<lambda>(x, y). x + y)
       (zip (drop (unit_length dips a - n) (the (dips a))) (take n (the (dips b))))"

definition crossfaded :: "(string \<rightharpoonup> samples) \<Rightarrow> string list \<Rightarrow> nat \<Rightarrow> samples" where
  \<comment> \<open>in the words of the specification: the first unit without its last \<open>n\<close> samples,
     then for every pair of neighbours their overlap segment followed by the later
     unit without its first \<open>n\<close> samples and, unless it is the last unit, without its
     last \<open>n\<close> samples\<close>
  "crossfaded dips us n =
     take (unit_length dips (hd us) - n) (the (dips (hd us)))
     @ concat (map (\<lambda>i.
         overlap_segment dips (us ! i) (us ! (i + 1)) n
         @ (if i + 2 < length us
            then take (unit_length dips (us ! (i + 1)) - n - n) (drop n (the (dips (us ! (i + 1)))))
            else drop n (the (dips (us ! (i + 1))))))
       [0..<length us - 1])"

definition tail_ramped :: "samples \<Rightarrow> nat \<Rightarrow> samples" where
  \<comment> \<open>the last \<open>n\<close> samples of a unit under the tail ramp: the sample at position \<open>i\<close> of
     that window times the factor \<open>(n - 1 - i) / n\<close>, which falls from \<open>(n - 1) / n\<close> to 0,
     the product taken in floating point and truncated\<close>
  "tail_ramped u n =
     map (\<lambda>i. py_int (fl_mul (u ! (length u - n + i)) (py_truediv (int (n - 1 - i)) (int n))))
       [0..<n]"

definition head_ramped :: "samples \<Rightarrow> nat \<Rightarrow> samples" where
  \<comment> \<open>the first \<open>n\<close> samples of a unit under the head ramp: the sample at position \<open>i\<close>
     times the factor \<open>i / n\<close>, the product taken in floating point and truncated\<close>
  "head_ramped u n =
     map (\<lambda>i. py_int (fl_mul (u ! i) (py_truediv (int i) (int n)))) [0..<n]"

definition ramped_overlap :: "(string \<rightharpoonup> samples) \<Rightarrow> string \<Rightarrow> string \<Rightarrow> nat \<Rightarrow> samples" where
  \<comment> \<open>in the words of the specification: the elementwise sum of the tail-ramped last \<open>n\<close>
     samples of the earlier unit and the head-ramped first \<open>n\<close> samples of the later unit,
     both units taken from the inventory as it is before the call\<close>
  "ramped_overlap dips a b n =
     map (\<lambda>(x, y). x + y)
       (zip (tail_ramped (the (dips a)) n) (head_ramped (the (dips b)) n))"

section \<open>Notions for stating the properties of the normalisation\<close>

fun phrase_at_call :: "nat \<Rightarrow> string \<Rightarrow> string option" where
  \<comment> \<open>the value of \<^verbatim>\<open>self.phrase\<close> when the nested call number \<open>k\<close> of \<open>normalise_phrase\<close>
     begins, call 0 being the outermost one; None when the calls do not get that far,
     because no date was left or because \<open>normalise_dates\<close> raised\<close>
  "phrase_at_call 0 phrase = Some phrase"
| "phrase_at_call (Suc k) phrase =
     (case date_search phrase of
        None \<Rightarrow> None
      | Some date_group \<Rightarrow>
          (case normalise_dates date_group of
             Inl e \<Rightarrow> None
           | Inr d \<Rightarrow> phrase_at_call k (replace phrase date_group d)))"

section \<open>Basic facts\<close>

lemma bind_err_simps [simp]:
  "bind_err (Inl e) f = Inl e" "bind_err (Inr v) f = f v"
  by (simp_all add: bind_err_def)

section \<open>Slices and the smoothing functions\<close>

lemma py_index_neg: "py_index len (- int n) = (if n = 0 then 0 else len - n)"
  by (auto simp: py_index_def)

lemma py_index_nonneg [simp]: "py_index len (int n) = min len n"
  by (simp add: py_index_def)

lemma slice_tail:
  "slice xs (- int n) (int (length xs)) = (if n = 0 then xs else drop (length xs - n) xs)"
  by (simp add: slice_def py_index_neg Let_def)

lemma slice_head: "slice xs 0 (int n) = take n xs"
  by (cases "n \<le> length xs") (simp_all add: slice_def py_index_def Let_def min_def)

lemma assign_loop_append:
  "assign_loop (is @ js) start len vs arr =
     bind_err (assign_loop is start len vs arr) (assign_loop js start len vs)"
  by (induction "is" arbitrary: arr) auto

lemma assign_loop_prefix:
  "m \<le> length vs \<Longrightarrow> m \<le> len \<Longrightarrow> start + m \<le> length arr \<Longrightarrow>
   assign_loop [0..<m] start len vs arr = Inr (take start arr @ take m vs @ drop (start + m) arr)"
proof (induction m)
  case 0
  then show ?case by simp
next
  case (Suc m)
  let ?mid = "take start arr @ take m vs @ drop (start + m) arr"
  have prev: "assign_loop [0..<m] start len vs arr = Inr ?mid"
    using Suc by simp
  have upd: "?mid[start + m := vs ! m] = take start arr @ take (Suc m) vs @ drop (start + Suc m) arr"
  proof (rule nth_equalityI)
    show "length (?mid[start + m := vs ! m])
        = length (take start arr @ take (Suc m) vs @ drop (start + Suc m) arr)"
      using Suc.prems by simp
  next
    fix i assume "i < length (?mid[start + m := vs ! m])"
    then have i: "i < length arr" using Suc.prems by simp
    show "?mid[start + m := vs ! m] ! i
        = (take start arr @ take (Suc m) vs @ drop (start + Suc m) arr) ! i"
      using Suc.prems i
      by (auto simp: nth_list_update nth_append min_def less_Suc_eq)
  qed
  have "assign_loop [0..<Suc m] start len vs arr
      = bind_err (assign_loop [0..<m] start len vs arr) (assign_loop [m] start len vs)"
    by (simp add: assign_loop_append)
  then show ?case using prev upd Suc.prems by simp
qed

lemma assign_loop_error:
  "assign_loop is start len vs arr = Inl e \<Longrightarrow> e = IndexError"
  by (induction "is" arbitrary: arr) (auto split: if_splits)

lemma assign_loop_short:
  "length vs < n \<Longrightarrow> assign_loop [0..<n] start len vs arr = Inl IndexError"
proof -
  assume short: "length vs < n"
  have "[0..<n] = [0..<length vs] @ length vs # [Suc (length vs)..<n]"
    using short by (metis le_add1 less_imp_add_positive upt_add_eq_append upt_conv_Cons
        add_0 zero_le)
  then have "assign_loop [0..<n] start len vs arr =
      bind_err (assign_loop [0..<length vs] start len vs arr)
        (assign_loop (length vs # [Suc (length vs)..<n]) start len vs)"
    by (simp add: assign_loop_append)
  then show ?thesis
    by (cases "assign_loop [0..<length vs] start len vs arr") (auto dest: assign_loop_error)
qed

lemma smooth_end_window:
  assumes "nr \<le> length arr"
  shows "smooth_end arr nr =
     Inr (take (length arr - nr) arr @
          map (\<lambda>i. py_int (fl_mul (arr ! (length arr - nr + i))
                      (py_truediv (int (nr - 1 - i)) (int nr)))) [0..<nr])"
proof (cases "nr = 0")
  case True
  then show ?thesis by (simp add: smooth_end_def)
next
  case False
  let ?vs = "map (\<lambda>(a, b). py_int (fl_mul a b))
      (zip (drop (length arr - nr) arr)
           (rev (map (\<lambda>i. py_truediv (int i) (int nr)) [0..<nr])))"
  have len: "length ?vs = nr" using assms by simp
  have vs: "?vs = map (\<lambda>i. py_int (fl_mul (arr ! (length arr - nr + i))
                      (py_truediv (int (nr - 1 - i)) (int nr)))) [0..<nr]"
  proof (rule nth_equalityI)
    show "length ?vs = length (map (\<lambda>i. py_int (fl_mul (arr ! (length arr - nr + i))
                      (py_truediv (int (nr - 1 - i)) (int nr)))) [0..<nr])"
      using len by simp
  next
    fix i assume "i < length ?vs"
    then have i: "i < nr" using len by simp
    then show "?vs ! i = map (\<lambda>i. py_int (fl_mul (arr ! (length arr - nr + i))
                      (py_truediv (int (nr - 1 - i)) (int nr)))) [0..<nr] ! i"
      using assms by (simp add: rev_nth)
  qed
  have "smooth_end arr nr = assign_loop [0..<nr] (length arr - nr) nr ?vs arr"
    using False assms by (simp add: smooth_end_def slice_tail py_index_neg Let_def)
  also have "\<dots> = Inr (take (length arr - nr) arr @ take nr ?vs @ drop (length arr - nr + nr) arr)"
    using len assms by (intro assign_loop_prefix) simp_all
  also have "\<dots> = Inr (take (length arr - nr) arr @ ?vs)"
    using len assms by simp
  finally show ?thesis using vs by simp
qed

lemma smooth_beg_window:
  assumes "nr \<le> length arr"
  shows "smooth_beg arr nr =
     Inr (map (\<lambda>i. py_int (fl_mul (arr ! i) (py_truediv (int i) (int nr)))) [0..<nr]
          @ drop nr arr)"
proof -
  let ?vs = "map (\<lambda>(a, b). py_int (fl_mul a b))
      (zip (take nr arr) (map (\<lambda>i. py_truediv (int i) (int nr)) [0..<nr]))"
  have len: "length ?vs = nr" using assms by simp
  have vs: "?vs = map (\<lambda>i. py_int (fl_mul (arr ! i) (py_truediv (int i) (int nr)))) [0..<nr]"
    by (rule nth_equalityI) (use assms in auto)
  have "smooth_beg arr nr = assign_loop [0..<nr] 0 nr ?vs arr"
    using assms by (simp add: smooth_beg_def slice_head Let_def)
  also have "\<dots> = Inr (take 0 arr @ take nr ?vs @ drop (0 + nr) arr)"
    using len assms by (intro assign_loop_prefix) simp_all
  finally show ?thesis using vs len by simp
qed

lemma smooth_end_short:
  "length arr < nr \<Longrightarrow> smooth_end arr nr = Inl IndexError"
  by (simp add: smooth_end_def Let_def slice_tail assign_loop_short)

lemma smooth_beg_short:
  "length arr < nr \<Longrightarrow> smooth_beg arr nr = Inl IndexError"
  by (simp add: smooth_beg_def Let_def slice_head assign_loop_short)

section \<open>The smoothing pass keeps the lengths\<close>

lemma slice_middle: "slice xs 1 (- 1) = butlast (tl xs)"
  by (cases xs) (auto simp: slice_def py_index_def Let_def butlast_conv_take)

lemma py_index_0 [simp]: "py_index len 0 = 0"
  by (simp add: py_index_def)

lemma slice_inner:
  "slice xs (int n) (- int n) = (if n = 0 then [] else take (length xs - n - n) (drop n xs))"
  by (auto simp: slice_def py_index_neg Let_def min_def)

lemma slice_front: "slice xs 0 (- int n) = (if n = 0 then [] else take (length xs - n) xs)"
  by (simp add: slice_def py_index_neg Let_def)

lemma slice_back: "slice xs (int n) (int (length xs)) = drop n xs"
  by (simp add: slice_def Let_def min_def)

lemma ends_middle: "2 \<le> length xs \<Longrightarrow> [hd xs] @ butlast (tl xs) @ [last xs] = xs"
  by (cases xs) (auto simp: Suc_le_eq)

lemma smooth_end_length:
  "n \<le> length a \<Longrightarrow> \<exists>b. smooth_end a n = Inr b \<and> length b = length a"
  by (simp add: smooth_end_window)

lemma smooth_beg_length:
  "n \<le> length a \<Longrightarrow> \<exists>b. smooth_beg a n = Inr b \<and> length b = length a"
  by (simp add: smooth_beg_window)

lemma at_ref_smooth_end:
  assumes "n \<le> unit_length dips r"
  shows "\<exists>d. at_ref smooth_end dips r n = Inr d \<and> unit_length d = unit_length dips"
proof -
  from assms obtain b where b: "smooth_end (the (dips r)) n = Inr b"
      "length b = length (the (dips r))"
    using smooth_end_length unfolding unit_length_def by blast
  then have "at_ref smooth_end dips r n = Inr (dips(r \<mapsto> b))"
    by (simp add: at_ref_def)
  moreover have "unit_length (dips(r \<mapsto> b)) = unit_length dips"
    using b(2) by (auto simp: unit_length_def fun_eq_iff)
  ultimately show ?thesis by blast
qed

lemma at_ref_smooth_beg:
  assumes "n \<le> unit_length dips r"
  shows "\<exists>d. at_ref smooth_beg dips r n = Inr d \<and> unit_length d = unit_length dips"
proof -
  from assms obtain b where b: "smooth_beg (the (dips r)) n = Inr b"
      "length b = length (the (dips r))"
    using smooth_beg_length unfolding unit_length_def by blast
  then have "at_ref smooth_beg dips r n = Inr (dips(r \<mapsto> b))"
    by (simp add: at_ref_def)
  moreover have "unit_length (dips(r \<mapsto> b)) = unit_length dips"
    using b(2) by (auto simp: unit_length_def fun_eq_iff)
  ultimately show ?thesis by blast
qed

lemma smooth_middle_lengths:
  "list_all (\<lambda>k. n \<le> unit_length dips k) es \<Longrightarrow>
   \<exists>d. smooth_middle dips es n = Inr d \<and> unit_length d = unit_length dips"
proof (induction es arbitrary: dips)
  case Nil
  then show ?case by simp
next
  case (Cons e es)
  then have e: "n \<le> unit_length dips e" by simp
  from at_ref_smooth_beg[OF e] obtain d1 where
    d1: "at_ref smooth_beg dips e n = Inr d1" "unit_length d1 = unit_length dips" by blast
  from at_ref_smooth_end[of n d1 e] e d1(2) obtain d2 where
    d2: "at_ref smooth_end d1 e n = Inr d2" "unit_length d2 = unit_length dips" by auto
  have "list_all (\<lambda>k. n \<le> unit_length d2 k) es" using Cons.prems d2(2) by simp
  from Cons.IH[OF this] obtain d where
    "smooth_middle d2 es n = Inr d" "unit_length d = unit_length d2" by blast
  then show ?case using d1 d2 by simp
qed

lemma smooth_pass_lengths:
  assumes "2 \<le> length us" and "list_all (\<lambda>k. n \<le> unit_length dips k) us"
  shows "\<exists>d. smooth_pass dips us n = Inr (d, us) \<and> unit_length d = unit_length dips"
proof -
  have ne: "us \<noteq> []" using assms(1) by auto
  have all: "\<And>k. k \<in> set us \<Longrightarrow> n \<le> unit_length dips k"
    using assms(2) by (simp add: list_all_iff)
  have hd: "n \<le> unit_length dips (hd us)" using all ne by simp
  from at_ref_smooth_end[OF hd] obtain d1 where
    d1: "at_ref smooth_end dips (hd us) n = Inr d1" "unit_length d1 = unit_length dips" by blast
  have "set (butlast (tl us)) \<subseteq> set us"
    by (cases us) (auto dest: in_set_butlastD)
  then have "list_all (\<lambda>k. n \<le> unit_length d1 k) (butlast (tl us))"
    using all d1(2) by (auto simp: list_all_iff)
  from smooth_middle_lengths[OF this] obtain d2 where
    d2: "smooth_middle d1 (butlast (tl us)) n = Inr d2" "unit_length d2 = unit_length dips"
    using d1(2) by auto
  have "n \<le> unit_length d2 (last us)" using all ne d2(2) by simp
  from at_ref_smooth_beg[OF this] obtain d3 where
    d3: "at_ref smooth_beg d2 (last us) n = Inr d3" "unit_length d3 = unit_length dips"
    using d2(2) by auto
  have "smooth_pass dips us n = Inr (d3, [hd us] @ butlast (tl us) @ [last us])"
    using ne d1 d2 d3 by (simp add: smooth_pass_def slice_middle)
  then show ?thesis using d3(2) ends_middle[OF assms(1)] by simp
qed

section \<open>The iterations of the smoothing\<close>

lemma np_add_same_length:
  "length xs = length ys \<Longrightarrow> np_add xs ys = Inr (map (\<lambda>(x, y). x + y) (zip xs ys))"
  by (simp add: np_add_def)

lemma overlap_step:
  assumes "0 < n" "n \<le> unit_length d a" "n \<le> unit_length d b"
  shows "np_add (slice (the (d a)) (- int n) (int (length (the (d a)))))
           (slice (the (d b)) 0 (int n)) = Inr (overlap_segment d a b n)"
    and "length (overlap_segment d a b n) = n"
  using assms
  by (simp_all add: slice_tail slice_head np_add_same_length overlap_segment_def unit_length_def)

lemma overlap_loop_append:
  assumes "0 < n" "list_all (\<lambda>k. n \<le> unit_length d k) sd"
    and "list_all (\<lambda>i. i + 1 < length sd) is"
  shows "overlap_loop d sd n (is @ js) acc =
     overlap_loop d sd n js
       (acc @ map (\<lambda>i. overlap_segment d (sd ! i) (sd ! (i + 1)) n) is)"
  using assms(3)
proof (induction "is" arbitrary: acc)
  case Nil
  then show ?case by simp
next
  case (Cons i "is")
  then have i: "i + 1 < length sd" by simp
  then have "n \<le> unit_length d (sd ! i)" "n \<le> unit_length d (sd ! (i + 1))"
    using assms(2) by (simp_all add: list_all_length)
  then have "np_add (slice (the (d (sd ! i))) (- int n) (int (length (the (d (sd ! i))))))
           (slice (the (d (sd ! (i + 1)))) 0 (int n))
        = Inr (overlap_segment d (sd ! i) (sd ! (i + 1)) n)"
    using assms(1) by (intro overlap_step)
  then show ?case using Cons i by simp
qed

lemma overlap_loop_all:
  assumes "0 < n" "list_all (\<lambda>k. n \<le> unit_length d k) sd" "sd \<noteq> []"
  shows "overlap_loop d sd n [0..<length sd] [] =
     Inr (map (\<lambda>i. overlap_segment d (sd ! i) (sd ! (i + 1)) n) [0..<length sd - 1])"
proof -
  obtain m where m: "length sd = Suc m" using assms(3) by (cases sd) auto
  have "list_all (\<lambda>i. i + 1 < length sd) [0..<m]" using m by (simp add: list_all_iff)
  from overlap_loop_append[OF assms(1,2) this, of "[m]" "[]"]
  show ?thesis using m by simp
qed

lemma concat_loop_append:
  "concat_loop val dip (is @ js) c = bind_err (concat_loop val dip is c) (concat_loop val dip js)"
  by (induction "is" arbitrary: c) auto

lemma concat_loop_prefix:
  "m \<le> length val \<Longrightarrow> length val < length dip \<Longrightarrow>
   concat_loop val dip [0..<m] c =
     Inr (c @ concat (map (\<lambda>i. val ! i @ dip ! (i + 1)) [0..<m]))"
proof (induction m)
  case 0
  then show ?case by simp
next
  case (Suc m)
  then show ?case by (simp add: concat_loop_append)
qed

lemma dip_arr_of_parts:
  assumes "0 < n"
  shows "dip_arr_of d sd n =
     [take (unit_length d (hd sd) - n) (the (d (hd sd)))]
     @ map (\<lambda>k. take (unit_length d k - n - n) (drop n (the (d k)))) (butlast (tl sd))
     @ [drop n (the (d (last sd)))]"
  using assms
  by (simp add: dip_arr_of_def np_split_def Let_def slice_middle slice_front slice_inner
      slice_back unit_length_def slice_head comp_def)

lemma pairs_by_index:
  "length val < length dip \<Longrightarrow>
   map (\<lambda>i. val ! i @ dip ! (i + 1)) [0..<length val] = map (\<lambda>(v, a). v @ a) (zip val (tl dip))"
  by (rule nth_equalityI) (auto simp: nth_tl)

lemma length_concat_pairs:
  "length xs = length ys \<Longrightarrow>
   length (concat (map (\<lambda>(v, a). v @ a) (zip xs ys)))
     = sum_list (map length xs) + sum_list (map length ys)"
  by (induction xs ys rule: list_induct2) auto

lemma sum_middle:
  "list_all (\<lambda>k. 2 * n \<le> f k) es \<Longrightarrow>
   sum_list (map (\<lambda>k. f k - n - n) es) + 2 * n * length es = sum_list (map f es)"
  by (induction es) auto

section \<open>The buffer that the smoothing builds\<close>

lemma resolve_loop_smooth:
  "resolve_loop dips True ks (concat_ary, lfs, out) =
     (concat_ary,
      lfs @ filter (\<lambda>k. dips k \<noteq> None) ks,
      out @ map (\<lambda>k. ''Missing diphone: '' @ k @ '', proceeding as normal.'')
              (filter (\<lambda>k. dips k = None) ks))"
  by (induction ks arbitrary: concat_ary lfs out) (auto split: option.splits)

lemma sum_same_length:
  "list_all (\<lambda>v. length v = n) xs \<Longrightarrow> sum_list (map length xs) = length xs * n"
  by (induction xs) auto

lemma crossfade_result:
  assumes two: "2 \<le> length us" and pos: "0 < n"
    and first: "n \<le> unit_length dips (hd us)"
    and final: "n \<le> unit_length dips (last us)"
    and middle: "list_all (\<lambda>k. 2 * n \<le> unit_length dips k) (butlast (tl us))"
  shows "\<exists>d body. crossfade dips us n c = Inr (c @ body, d)
     \<and> body = crossfaded d us n
     \<and> smooth_pass dips us n = Inr (d, us)
     \<and> unit_length d = unit_length dips
     \<and> overlap_loop d us n [0..<length us] [] =
         Inr (map (\<lambda>i. overlap_segment d (us ! i) (us ! (i + 1)) n) [0..<length us - 1])
     \<and> list_all (\<lambda>v. length v = n)
         (map (\<lambda>i. overlap_segment d (us ! i) (us ! (i + 1)) n) [0..<length us - 1])
     \<and> length body = sum_list (map (unit_length dips) us) - (length us - 1) * n"
proof -
  obtain u0 rest where us0: "us = u0 # rest" using two by (cases us) auto
  then have "rest \<noteq> []" using two by auto
  then obtain mid ul where rest: "rest = mid @ [ul]" by (metis rev_exhaust)
  have us: "us = u0 # mid @ [ul]" using us0 rest by simp
  have sel: "hd us = u0" "last us = ul" "butlast (tl us) = mid" "length us = length mid + 2"
    using us by simp_all
  have mid_n: "list_all (\<lambda>k. n \<le> unit_length dips k) mid"
    using middle sel(3) by (auto simp: list_all_iff)
  have all: "list_all (\<lambda>k. n \<le> unit_length dips k) us"
    using first final mid_n us by simp
  from smooth_pass_lengths[OF two all] obtain d where
    d: "smooth_pass dips us n = Inr (d, us)" "unit_length d = unit_length dips" by blast
  have all_d: "list_all (\<lambda>k. n \<le> unit_length d k) us" using all d(2) by simp
  let ?ovs = "map (\<lambda>i. overlap_segment d (us ! i) (us ! (i + 1)) n) [0..<length us - 1]"
  have ovs: "overlap_loop d us n [0..<length us] [] = Inr ?ovs"
    using pos all_d by (rule overlap_loop_all) (use us in simp)
  have ov_len: "list_all (\<lambda>v. length v = n) ?ovs"
  proof -
    have "length (overlap_segment d (us ! i) (us ! (i + 1)) n) = n" if "i < length us - 1" for i
    proof -
      have "n \<le> unit_length d (us ! i)" "n \<le> unit_length d (us ! (i + 1))"
        using all_d that by (simp_all add: list_all_length)
      then show ?thesis using pos by (intro overlap_step(2))
    qed
    then show ?thesis by (simp add: list_all_iff)
  qed
  let ?dip = "dip_arr_of d us n"
  have dip: "?dip = [take (unit_length d u0 - n) (the (d u0))]
     @ map (\<lambda>k. take (unit_length d k - n - n) (drop n (the (d k)))) mid
     @ [drop n (the (d ul))]"
    using dip_arr_of_parts[OF pos, of d us] sel by simp
  have dip_len: "length ?ovs < length ?dip" using dip sel(4) by simp
  let ?body = "?dip ! 0 @ concat (map (\<lambda>i. ?ovs ! i @ ?dip ! (i + 1)) [0..<length ?ovs])"
  have loop: "concat_loop ?ovs ?dip [0..<length ?ovs] (c @ ?dip ! 0) = Inr (c @ ?body)"
    using concat_loop_prefix[of "length ?ovs" ?ovs ?dip "c @ ?dip ! 0"] dip_len by simp
  have result: "crossfade dips us n c = Inr (c @ ?body, d)"
    using d(1) ovs loop by (simp add: crossfade_def Let_def)
  have ov_sum: "sum_list (map length ?ovs) = (length mid + 1) * n"
    using sum_same_length[OF ov_len] sel(4) by simp
  have tl_dip: "tl ?dip = map (\<lambda>k. take (unit_length d k - n - n) (drop n (the (d k)))) mid
     @ [drop n (the (d ul))]"
    using dip by simp
  have mid_sum: "sum_list (map (\<lambda>k. unit_length dips k - n - n) mid) + 2 * n * length mid
      = sum_list (map (unit_length dips) mid)"
    using middle sel(3) by (intro sum_middle) simp
  have mid_len: "map length (map (\<lambda>k. take (unit_length d k - n - n) (drop n (the (d k)))) mid)
      = map (\<lambda>k. unit_length dips k - n - n) mid"
    using d(2) by (auto simp: unit_length_def fun_eq_iff)
  have tl_sum: "sum_list (map length (tl ?dip))
      = sum_list (map (\<lambda>k. unit_length dips k - n - n) mid) + (unit_length dips ul - n)"
    unfolding tl_dip using d(2) by (simp add: unit_length_def fun_eq_iff comp_def)
  have eq_len: "length ?ovs = length (tl ?dip)" using dip sel(4) by simp
  have "map (\<lambda>i. ?ovs ! i @ ?dip ! (i + 1)) [0..<length ?ovs]
      = map (\<lambda>(v, a). v @ a) (zip ?ovs (tl ?dip))"
    by (rule pairs_by_index[OF dip_len])
  then have "length (concat (map (\<lambda>i. ?ovs ! i @ ?dip ! (i + 1)) [0..<length ?ovs]))
      = length (concat (map (\<lambda>(v, a). v @ a) (zip ?ovs (tl ?dip))))"
    by (simp only:)
  also have "\<dots> = sum_list (map length ?ovs) + sum_list (map length (tl ?dip))"
    by (rule length_concat_pairs[OF eq_len])
  finally have pairs_len:
    "length (concat (map (\<lambda>i. ?ovs ! i @ ?dip ! (i + 1)) [0..<length ?ovs]))
      = sum_list (map length ?ovs) + sum_list (map length (tl ?dip))" .
  moreover have "length (?dip ! 0) = unit_length dips u0 - n"
    using dip d(2) first sel(1) by (simp add: unit_length_def fun_eq_iff)
  ultimately have "length ?body = (unit_length dips u0 - n) + (length mid + 1) * n
      + sum_list (map (\<lambda>k. unit_length dips k - n - n) mid) + (unit_length dips ul - n)"
    using ov_sum tl_sum by simp
  moreover have "sum_list (map (unit_length dips) us)
      = unit_length dips u0 + sum_list (map (unit_length dips) mid) + unit_length dips ul"
    using us by simp
  moreover have "(length us - 1) * n = (length mid + 1) * n" using sel(4) by simp
  moreover have "n \<le> unit_length dips u0" "n \<le> unit_length dips ul"
    using first final sel by simp_all
  ultimately have "length ?body = sum_list (map (unit_length dips) us) - (length us - 1) * n"
    using mid_sum by (simp add: algebra_simps)
  moreover have "?body = crossfaded d us n"
  proof -
    let ?g = "\<lambda>i. overlap_segment d (us ! i) (us ! (i + 1)) n
            @ (if i + 2 < length us
               then take (unit_length d (us ! (i + 1)) - n - n)
                      (drop n (the (d (us ! (i + 1)))))
               else drop n (the (d (us ! (i + 1)))))"
    have step: "?ovs ! i @ ?dip ! (i + 1) = ?g i" if "i < length us - 1" for i
    proof -
      have "?ovs ! i = overlap_segment d (us ! i) (us ! (i + 1)) n"
        using that by simp
      moreover have "?dip ! (i + 1) =
          (if i + 2 < length us
           then take (unit_length d (us ! (i + 1)) - n - n) (drop n (the (d (us ! (i + 1)))))
           else drop n (the (d (us ! (i + 1)))))"
        unfolding dip using that sel(4) us by (auto simp: nth_append)
      ultimately show ?thesis by (simp only:)
    qed
    have "map (\<lambda>i. ?ovs ! i @ ?dip ! (i + 1)) [0..<length ?ovs] = map ?g [0..<length us - 1]"
      by (rule nth_equalityI) (use step in auto)
    moreover have "?dip ! 0 = take (unit_length d (hd us) - n) (the (d (hd us)))"
      using dip sel(1) by simp
    ultimately show ?thesis unfolding crossfaded_def by (simp only:)
  qed
  ultimately show ?thesis using result d ovs ov_len by blast
qed

section \<open>What the smoothing pass writes\<close>

lemma at_ref_result:
  "at_ref f dips r n = Inr d \<Longrightarrow> \<exists>b. f (the (dips r)) n = Inr b \<and> d = dips(r \<mapsto> b)"
  by (cases "f (the (dips r)) n") (auto simp: at_ref_def)

lemma smooth_middle_distinct:
  "distinct es \<Longrightarrow> smooth_middle dips es n = Inr d \<Longrightarrow>
   (\<forall>k. k \<notin> set es \<longrightarrow> d k = dips k) \<and>
   (\<forall>k\<in>set es. \<exists>b. smooth_beg (the (dips k)) n = Inr b \<and> smooth_end b n = Inr (the (d k)))"
proof (induction es arbitrary: dips)
  case Nil
  then show ?case by simp
next
  case (Cons e es)
  from Cons.prems(2) obtain d1 d2 where
    d1: "at_ref smooth_beg dips e n = Inr d1" and
    d2: "at_ref smooth_end d1 e n = Inr d2" and
    rest: "smooth_middle d2 es n = Inr d"
    by (auto simp: bind_err_def split: sum.splits)
  from at_ref_result[OF d1] obtain b1 where
    b1: "smooth_beg (the (dips e)) n = Inr b1" "d1 = dips(e \<mapsto> b1)" by blast
  from at_ref_result[OF d2] obtain b2 where
    b2: "smooth_end (the (d1 e)) n = Inr b2" "d2 = d1(e \<mapsto> b2)" by blast
  have e: "e \<notin> set es" and dist: "distinct es" using Cons.prems(1) by simp_all
  from Cons.IH[OF dist rest] have
    out: "\<forall>k. k \<notin> set es \<longrightarrow> d k = d2 k" and
    inn: "\<forall>k\<in>set es. \<exists>b. smooth_beg (the (d2 k)) n = Inr b \<and> smooth_end b n = Inr (the (d k))"
    by blast+
  have de: "d e = Some b2" using out e b2(2) by simp
  have b12: "smooth_end b1 n = Inr b2" using b2(1) b1(2) by simp
  have same: "d2 k = dips k" if "k \<noteq> e" for k using that b1(2) b2(2) by simp
  have outside: "\<forall>k. k \<notin> set (e # es) \<longrightarrow> d k = dips k"
    using out same by simp
  have inside: "\<exists>b. smooth_beg (the (dips k)) n = Inr b \<and> smooth_end b n = Inr (the (d k))"
    if k: "k \<in> set (e # es)" for k
  proof (cases "k = e")
    case True
    then show ?thesis using b1(1) b12 de by auto
  next
    case False
    then have "k \<in> set es" using k by simp
    then obtain b where "smooth_beg (the (d2 k)) n = Inr b" "smooth_end b n = Inr (the (d k))"
      using inn by blast
    then show ?thesis using same[OF False] by auto
  qed
  show ?case using outside inside by blast
qed

text \<open>
  When no name occurs twice among the units, the smoothing pass leaves the first unit
  ramped at its end, the last unit ramped at its beginning, every unit between them
  ramped at its beginning and then at its end, and every other array of the inventory
  as it was.
\<close>

lemma smooth_pass_distinct:
  assumes "distinct us" and "2 \<le> length us" and "smooth_pass dips us n = Inr (d, us)"
  shows "smooth_end (the (dips (hd us))) n = Inr (the (d (hd us)))"
    and "\<forall>k\<in>set (butlast (tl us)).
           \<exists>b. smooth_beg (the (dips k)) n = Inr b \<and> smooth_end b n = Inr (the (d k))"
    and "smooth_beg (the (dips (last us))) n = Inr (the (d (last us)))"
    and "\<forall>k. k \<notin> set us \<longrightarrow> d k = dips k"
proof -
  obtain u0 rest where us0: "us = u0 # rest" using assms(2) by (cases us) auto
  then have "rest \<noteq> []" using assms(2) by auto
  then obtain mid ul where rest: "rest = mid @ [ul]" by (metis rev_exhaust)
  have us: "us = u0 # mid @ [ul]" using us0 rest by simp
  have sel: "hd us = u0" "last us = ul" "butlast (tl us) = mid" using us by simp_all
  have dist: "distinct mid" "u0 \<notin> set mid" "ul \<notin> set mid" "u0 \<noteq> ul"
    using assms(1) us by auto
  from assms(3) obtain d1 d2 where
    d1: "at_ref smooth_end dips u0 n = Inr d1" and
    d2: "smooth_middle d1 mid n = Inr d2" and
    d3: "at_ref smooth_beg d2 ul n = Inr d"
    using us by (auto simp: smooth_pass_def slice_middle bind_err_def split: sum.splits)
  from at_ref_result[OF d1] obtain b1 where
    b1: "smooth_end (the (dips u0)) n = Inr b1" "d1 = dips(u0 \<mapsto> b1)" by blast
  from smooth_middle_distinct[OF dist(1) d2] have
    out: "\<forall>k. k \<notin> set mid \<longrightarrow> d2 k = d1 k" and
    inn: "\<forall>k\<in>set mid. \<exists>b. smooth_beg (the (d1 k)) n = Inr b \<and> smooth_end b n = Inr (the (d2 k))"
    by blast+
  from at_ref_result[OF d3] obtain b3 where
    b3: "smooth_beg (the (d2 ul)) n = Inr b3" "d = d2(ul \<mapsto> b3)" by blast
  have "d u0 = Some b1" using b3(2) out dist b1(2) by simp
  then show "smooth_end (the (dips (hd us))) n = Inr (the (d (hd us)))"
    using b1(1) sel by simp
  have "d2 ul = dips ul" using out dist b1(2) by simp
  then show "smooth_beg (the (dips (last us))) n = Inr (the (d (last us)))"
    using b3 sel by simp
  have "\<exists>b. smooth_beg (the (dips k)) n = Inr b \<and> smooth_end b n = Inr (the (d k))"
    if k: "k \<in> set mid" for k
  proof -
    from k obtain b where b: "smooth_beg (the (d1 k)) n = Inr b"
        "smooth_end b n = Inr (the (d2 k))"
      using inn by blast
    have "k \<noteq> u0" "k \<noteq> ul" using k dist by auto
    then have "d1 k = dips k" "d k = d2 k" using b1(2) b3(2) by simp_all
    then show ?thesis using b by auto
  qed
  then show "\<forall>k\<in>set (butlast (tl us)).
           \<exists>b. smooth_beg (the (dips k)) n = Inr b \<and> smooth_end b n = Inr (the (d k))"
    using sel(3) by blast
  show "\<forall>k. k \<notin> set us \<longrightarrow> d k = dips k"
    using out b1(2) b3(2) us by auto
qed

section \<open>The windows after the ramps\<close>

lemma length_tail_ramped [simp]: "length (tail_ramped u n) = n"
  by (simp add: tail_ramped_def)

lemma length_head_ramped [simp]: "length (head_ramped u n) = n"
  by (simp add: head_ramped_def)

lemma smooth_end_ramped:
  "n \<le> length a \<Longrightarrow> smooth_end a n = Inr (take (length a - n) a @ tail_ramped a n)"
  by (simp add: smooth_end_window tail_ramped_def)

lemma smooth_beg_ramped:
  "n \<le> length a \<Longrightarrow> smooth_beg a n = Inr (head_ramped a n @ drop n a)"
  by (simp add: smooth_beg_window head_ramped_def)

lemma tail_ramped_cong:
  assumes "length a = length b" "n \<le> length a"
    and "drop (length a - n) a = drop (length a - n) b"
  shows "tail_ramped a n = tail_ramped b n"
proof -
  have "a ! (length a - n + i) = b ! (length a - n + i)" if "i < n" for i
  proof -
    have "a ! (length a - n + i) = drop (length a - n) a ! i"
      using assms(2) that by simp
    also have "\<dots> = drop (length a - n) b ! i" using assms(3) by simp
    also have "\<dots> = b ! (length a - n + i)" using assms(1,2) that by simp
    finally show ?thesis .
  qed
  then show ?thesis using assms(1) by (simp add: tail_ramped_def)
qed

lemma head_ramped_cong:
  assumes "take n a = take n b"
  shows "head_ramped a n = head_ramped b n"
proof -
  have "a ! i = b ! i" if "i < n" for i
    using that assms by (metis nth_take)
  then show ?thesis by (simp add: head_ramped_def)
qed

lemma end_only:
  assumes "n \<le> length a" "smooth_end a n = Inr b"
  shows "length b = length a" "drop (length a - n) b = tail_ramped a n"
  using assms by (auto simp: smooth_end_ramped)

lemma beg_only:
  assumes "n \<le> length a" "smooth_beg a n = Inr b"
  shows "length b = length a" "take n b = head_ramped a n"
  using assms by (auto simp: smooth_beg_ramped)

lemma end_after_beg:
  assumes n: "2 * n \<le> length a" and b: "smooth_beg a n = Inr b" and c: "smooth_end b n = Inr c"
  shows "take n c = head_ramped a n" "drop (length a - n) c = tail_ramped a n"
proof -
  have na: "n \<le> length a" using n by simp
  have b': "b = head_ramped a n @ drop n a" using b na by (simp add: smooth_beg_ramped)
  then have lb: "length b = length a" using na by simp
  have c': "c = take (length a - n) b @ tail_ramped b n"
    using c na lb by (simp add: smooth_end_ramped)
  have "take n c = take n b" using c' n lb by simp
  then show "take n c = head_ramped a n" using b' by simp
  have "drop (length a - n) b = drop (length a - n) a" using b' n by simp
  then have "tail_ramped b n = tail_ramped a n"
    using lb na by (intro tail_ramped_cong) simp_all
  then show "drop (length a - n) c = tail_ramped a n" using c' lb na by simp
qed

lemma beg_after_end:
  assumes n: "2 * n \<le> length a" and b: "smooth_end a n = Inr b" and c: "smooth_beg b n = Inr c"
  shows "take n c = head_ramped a n" "drop (length a - n) c = tail_ramped a n"
proof -
  have na: "n \<le> length a" using n by simp
  have b': "b = take (length a - n) a @ tail_ramped a n" using b na by (simp add: smooth_end_ramped)
  then have lb: "length b = length a" using na by simp
  have c': "c = head_ramped b n @ drop n b"
    using c na lb by (simp add: smooth_beg_ramped)
  have "take n b = take n a" using b' n by simp
  then have "head_ramped b n = head_ramped a n" by (rule head_ramped_cong)
  then show "take n c = head_ramped a n" using c' by simp
  have "drop (length a - n) c = drop (length a - n) b" using c' n lb by simp
  then show "drop (length a - n) c = tail_ramped a n" using b' na by simp
qed

text \<open>
  When no unit is ramped twice at the same end, and a unit that is ramped at both ends
  has at least 2 n samples, the smoothing pass leaves in the last n samples of every unit
  but the last its tail ramp, and in the first n samples of every unit but the first its
  head ramp, both computed from the samples that the inventory held before the pass.
\<close>

lemma smooth_pass_windows:
  assumes us: "us = u0 # mid @ [ul]"
    and dist: "distinct mid" "u0 \<notin> set mid" "ul \<notin> set mid"
    and pass: "smooth_pass dips us n = Inr (d, us)"
    and first: "n \<le> unit_length dips u0" and final: "n \<le> unit_length dips ul"
    and middle: "\<forall>k\<in>set mid. 2 * n \<le> unit_length dips k"
    and both: "u0 = ul \<longrightarrow> 2 * n \<le> unit_length dips u0"
  shows "\<forall>k\<in>set (u0 # mid).
           drop (unit_length dips k - n) (the (d k)) = tail_ramped (the (dips k)) n"
    and "\<forall>k\<in>set (mid @ [ul]). take n (the (d k)) = head_ramped (the (dips k)) n"
proof -
  from pass obtain d1 d2 where
    d1: "at_ref smooth_end dips u0 n = Inr d1" and
    d2: "smooth_middle d1 mid n = Inr d2" and
    d3: "at_ref smooth_beg d2 ul n = Inr d"
    using us by (auto simp: smooth_pass_def slice_middle bind_err_def split: sum.splits)
  from at_ref_result[OF d1] obtain b1 where
    b1: "smooth_end (the (dips u0)) n = Inr b1" "d1 = dips(u0 \<mapsto> b1)" by blast
  from smooth_middle_distinct[OF dist(1) d2] have
    out: "\<forall>k. k \<notin> set mid \<longrightarrow> d2 k = d1 k" and
    inn: "\<forall>k\<in>set mid. \<exists>b. smooth_beg (the (d1 k)) n = Inr b \<and> smooth_end b n = Inr (the (d2 k))"
    by blast+
  from at_ref_result[OF d3] obtain b3 where
    b3: "smooth_beg (the (d2 ul)) n = Inr b3" "d = d2(ul \<mapsto> b3)" by blast
  have d2u0: "d2 u0 = Some b1" using out dist(2) b1(2) by simp
  have mid_w: "take n (the (d k)) = head_ramped (the (dips k)) n
      \<and> drop (unit_length dips k - n) (the (d k)) = tail_ramped (the (dips k)) n"
    if k: "k \<in> set mid" for k
  proof -
    from k obtain b where b: "smooth_beg (the (d1 k)) n = Inr b"
        "smooth_end b n = Inr (the (d2 k))"
      using inn by blast
    have "k \<noteq> u0" "k \<noteq> ul" using k dist by auto
    then have same: "d1 k = dips k" "d k = d2 k" using b1(2) b3(2) by simp_all
    have len: "2 * n \<le> length (the (dips k))" using middle k by (simp add: unit_length_def)
    from end_after_beg[OF len, of b "the (d2 k)"] b same
    show ?thesis by (simp add: unit_length_def)
  qed
  have ends: "drop (unit_length dips u0 - n) (the (d u0)) = tail_ramped (the (dips u0)) n
      \<and> take n (the (d ul)) = head_ramped (the (dips ul)) n"
  proof (cases "u0 = ul")
    case True
    then have len: "2 * n \<le> length (the (dips u0))" using both by (simp add: unit_length_def)
    have "smooth_beg b1 n = Inr b3" using b3(1) d2u0 True by simp
    from beg_after_end[OF len b1(1) this] have
      "take n b3 = head_ramped (the (dips u0)) n"
      "drop (length (the (dips u0)) - n) b3 = tail_ramped (the (dips u0)) n" .
    moreover have "d u0 = Some b3" using b3(2) True by simp
    ultimately show ?thesis using True by (simp add: unit_length_def)
  next
    case False
    have du0: "d u0 = Some b1" using b3(2) d2u0 False by simp
    have "d2 ul = dips ul" using out dist(3) b1(2) False by simp
    then have bl: "smooth_beg (the (dips ul)) n = Inr b3" using b3(1) by simp
    have dul: "d ul = Some b3" using b3(2) by simp
    have n0: "n \<le> length (the (dips u0))" using first by (simp add: unit_length_def)
    have nl: "n \<le> length (the (dips ul))" using final by (simp add: unit_length_def)
    from end_only(2)[OF n0 b1(1)] beg_only(2)[OF nl bl] du0 dul
    show ?thesis by (simp add: unit_length_def)
  qed
  show "\<forall>k\<in>set (u0 # mid).
           drop (unit_length dips k - n) (the (d k)) = tail_ramped (the (dips k)) n"
    using ends mid_w by auto
  show "\<forall>k\<in>set (mid @ [ul]). take n (the (d k)) = head_ramped (the (dips k)) n"
    using ends mid_w by auto
qed

lemma ramped_overlaps:
  assumes two: "2 \<le> length us"
    and pass: "smooth_pass dips us n = Inr (d, us)"
    and lens: "unit_length d = unit_length dips"
    and first: "n \<le> unit_length dips (hd us)"
    and final: "n \<le> unit_length dips (last us)"
    and middle: "list_all (\<lambda>k. 2 * n \<le> unit_length dips k) (butlast (tl us))"
    and once: "distinct (butlast us)" "distinct (tl us)"
    and both: "hd us = last us \<longrightarrow> 2 * n \<le> unit_length dips (hd us)"
    and i: "i < length us - 1"
  shows "overlap_segment d (us ! i) (us ! (i + 1)) n = ramped_overlap dips (us ! i) (us ! (i + 1)) n"
proof -
  obtain u0 rest where us0: "us = u0 # rest" using two by (cases us) auto
  then have "rest \<noteq> []" using two by auto
  then obtain mid ul where rest: "rest = mid @ [ul]" by (metis rev_exhaust)
  have us: "us = u0 # mid @ [ul]" using us0 rest by simp
  have sel: "hd us = u0" "last us = ul" "butlast (tl us) = mid"
    "butlast us = u0 # mid" "tl us = mid @ [ul]"
    using us by (simp_all add: butlast_append)
  have dist: "distinct mid" "u0 \<notin> set mid" "ul \<notin> set mid"
    using once sel by auto
  have mid2: "\<forall>k\<in>set mid. 2 * n \<le> unit_length dips k"
    using middle sel(3) by (simp add: list_all_iff)
  note w = smooth_pass_windows[OF us dist pass first[unfolded sel] final[unfolded sel] mid2
      both[unfolded sel]]
  have a: "us ! i \<in> set (u0 # mid)"
  proof -
    have "i < length (butlast us)" using i by simp
    then have "butlast us ! i \<in> set (butlast us)" by (rule nth_mem)
    moreover have "butlast us ! i = us ! i" using i by (simp add: nth_butlast)
    ultimately show ?thesis using sel(4) by simp
  qed
  have b: "us ! (i + 1) \<in> set (mid @ [ul])"
  proof -
    have "i < length (tl us)" using i by simp
    then have "tl us ! i \<in> set (tl us)" by (rule nth_mem)
    moreover have "tl us ! i = us ! (i + 1)" using i by (simp add: nth_tl)
    ultimately show ?thesis using sel(5) by simp
  qed
  have "drop (unit_length dips (us ! i) - n) (the (d (us ! i)))
      = tail_ramped (the (dips (us ! i))) n"
    using w(1) a by blast
  then have "drop (unit_length d (us ! i) - n) (the (d (us ! i)))
      = tail_ramped (the (dips (us ! i))) n"
    using lens by simp
  moreover have "take n (the (d (us ! (i + 1)))) = head_ramped (the (dips (us ! (i + 1)))) n"
    using w(2) b by blast
  ultimately show ?thesis by (simp add: overlap_segment_def ramped_overlap_def)
qed

section \<open>Dates in a phrase\<close>

text \<open>
  C9. Normalising the phrase \<^verbatim>\<open>09/03/1973\<close> returns exactly the words march, ninth,
  nineteen, seventy, three, and normalising \<^verbatim>\<open>09/03/73\<close> returns the same words. (The
  first component of each result is the phrase the utterance holds afterwards.)
\<close>

theorem normalise_phrase_date_1973:
  "normalise_phrase ''09/03/1973'' =
     Inr (''march ninth nineteen seventy three'',
          [''march'', ''ninth'', ''nineteen'', ''seventy'', ''three''])
   \<and> normalise_phrase ''09/03/73'' =
     Inr (''march ninth nineteen seventy three'',
          [''march'', ''ninth'', ''nineteen'', ''seventy'', ''three''])"
  by code_simp

section \<open>Years in a date\<close>

lemma date_match_year_digits:
  assumes "date_match date = Some (g1, g2, Some y, g0)"
  shows "list_all is_digit y" and "2 \<le> length y"
proof -
  from assms obtain r where y: "y = takeWhile is_digit r" and len: "2 \<le> length y"
    by (auto simp: date_match_def Let_def split: if_splits list.splits)
  show "2 \<le> length y" by (rule len)
  show "list_all is_digit y"
    unfolding y list_all_iff by (auto dest: set_takeWhileD)
qed

lemma teens_defined: "is_digit u \<Longrightarrow> yrs_10to19 [CHR ''1'', u] \<noteq> None"
  by (auto simp: is_digit_def yrs_10to19_def)

lemma yrs_tens_defined: "is_digit t \<Longrightarrow> t \<noteq> CHR ''1'' \<Longrightarrow> yrs_tens [t] \<noteq> None"
  by (auto simp: is_digit_def yrs_tens_def)

lemma yrs_ones_defined: "is_digit u \<Longrightarrow> u \<noteq> CHR ''0'' \<Longrightarrow> yrs_ones [u] \<noteq> None"
  by (auto simp: is_digit_def yrs_ones_def)

text \<open>
  C4, as amended. When the day and the month of a date are in their tables and the last
  two digits of the year are not one of 10 to 19 and do not end in 0, \<open>normalise_dates\<close>
  returns the month, the day, \<^verbatim>\<open>nineteen\<close>, the word of the tens digit and the word of
  the ones digit. The tens table has 0 (the word \<^verbatim>\<open>o\<close>) and 2 to 9; the ones table has
  1 to 9.
\<close>

theorem normalise_dates_two_digit_year:
  assumes match: "date_match date = Some (g1, g2, Some y, g0)"
    and month: "mths (lstrip0 g2) = Some m"
    and day: "dys (lstrip0 g1) = Some d"
    and last2: "drop (length y - 2) y = [t, u]"
    and not_teen: "yrs_10to19 [t, u] = None"
    and ones: "u \<noteq> CHR ''0''"
  shows "\<exists>tw uw. yrs_tens [t] = Some tw \<and> yrs_ones [u] = Some uw \<and>
     normalise_dates date = Inr (m @ '' '' @ d @ '' nineteen '' @ tw @ '' '' @ uw)"
proof -
  have "set [t, u] \<subseteq> set y" using last2 by (metis set_drop_subset)
  moreover have "list_all is_digit y" using match by (rule date_match_year_digits)
  ultimately have digits: "is_digit t" "is_digit u" by (auto simp: list_all_iff)
  have "t \<noteq> CHR ''1''" using not_teen teens_defined[OF digits(2)] by auto
  then obtain tw where tw: "yrs_tens [t] = Some tw"
    using yrs_tens_defined[OF digits(1)] by auto
  obtain uw where uw: "yrs_ones [u] = Some uw"
    using yrs_ones_defined[OF digits(2) ones] by auto
  have year: "(if length y \<noteq> 2 then drop (length y - 2) y else y) = [t, u]"
    using last2 by auto
  have "normalise_dates date = Inr (m @ '' '' @ d @ '' nineteen '' @ tw @ '' '' @ uw)"
    using match month day not_teen tw uw
    by (simp add: normalise_dates_def Let_def year lookup_def domIff del: One_nat_def)
  then show ?thesis using tw uw by blast
qed

theorem normalise_dates_two_digit_year_witness:
  "date_match ''09/03/05'' = Some (''09'', ''03'', Some ''05'', ''09/03/05'')
   \<and> mths (lstrip0 ''03'') = Some ''march'' \<and> dys (lstrip0 ''09'') = Some ''ninth''
   \<and> drop (length ''05'' - 2) ''05'' = ''05''
   \<and> yrs_10to19 ''05'' = None
   \<and> yrs_tens ''0'' = Some ''o'' \<and> yrs_ones ''5'' = Some ''five''
   \<and> normalise_dates ''09/03/05'' = Inr ''march ninth nineteen o five''"
proof -
  have h: "date_match ''09/03/05'' = Some (''09'', ''03'', Some ''05'', ''09/03/05'')"
    "mths (lstrip0 ''03'') = Some ''march''" "dys (lstrip0 ''09'') = Some ''ninth''"
    "drop (length ''05'' - 2) ''05'' = [CHR ''0'', CHR ''5'']"
    "yrs_10to19 [CHR ''0'', CHR ''5''] = None"
    "CHR ''5'' \<noteq> CHR ''0''"
    by code_simp+
  have t: "yrs_tens ''0'' = Some ''o''" "yrs_ones ''5'' = Some ''five''"
    by code_simp+
  from normalise_dates_two_digit_year [OF h] t
  have "normalise_dates ''09/03/05'' = Inr ''march ninth nineteen o five''"
    by auto
  then show ?thesis using h t by simp
qed

text \<open>
  The claim as stated puts the word \<^verbatim>\<open>o\<close> in the ones position for a year such as 70.
  The ones table has no entry for 0: the lookup raises KeyError. So does the lookup of
  a month that is not in the table of months, whatever the year.
\<close>

theorem normalise_dates_year_ending_0_counterexample:
  "normalise_dates ''09/03/70'' = Inl KeyError
   \<and> normalise_dates ''09/03/1970'' = Inl KeyError
   \<and> yrs_ones ''0'' = None
   \<and> normalise_dates ''09/13/73'' = Inl KeyError"
  by code_simp

section \<open>Dates out of range\<close>

lemma bad_date_key_error:
  assumes "date_match date_group = Some (g1, g2, g3, g0)"
    and "dys (lstrip0 g1) = None \<or> mths (lstrip0 g2) = None"
  shows "normalise_dates date_group = Inl KeyError"
  using assms
  by (auto simp: normalise_dates_def Let_def lookup_def bind_err_def split: option.splits)

lemma normalise_phrase_error_at_call:
  "phrase_at_call k phrase = Some p \<Longrightarrow> date_search p = Some date_group \<Longrightarrow>
   normalise_dates date_group = Inl e \<Longrightarrow> normalise_phrase phrase = Inl e"
proof (induction k arbitrary: phrase)
  case 0
  then show ?case by (simp add: normalise_phrase.simps)
next
  case (Suc k)
  from Suc.prems(1) obtain g d where
    g: "date_search phrase = Some g" "normalise_dates g = Inr d"
      "phrase_at_call k (replace phrase g d) = Some p"
    by (auto split: option.splits sum.splits)
  from Suc.IH[OF g(3) Suc.prems(2) Suc.prems(3)]
  have "normalise_phrase (replace phrase g d) = Inl e" .
  then show ?case using g(1) g(2) by (simp add: normalise_phrase.simps)
qed

text \<open>
  Conversely, every error of \<open>normalise_phrase\<close> is the error that \<open>normalise_dates\<close>
  raises on the date that the search finds in one of the nested calls.
\<close>

lemma normalise_phrase_error_source:
  "normalise_phrase phrase = Inl e \<Longrightarrow>
   \<exists>k p date_group. phrase_at_call k phrase = Some p \<and> date_search p = Some date_group
     \<and> normalise_dates date_group = Inl e"
proof (induction phrase rule: normalise_phrase.induct)
  case (1 phrase)
  from "1.prems" obtain g where g: "date_search phrase = Some g"
    by (cases "date_search phrase") (auto simp: normalise_phrase.simps)
  show ?case
  proof (cases "normalise_dates g")
    case (Inl e')
    then have "e' = e" using "1.prems" g by (simp add: normalise_phrase.simps)
    then have "phrase_at_call 0 phrase = Some phrase \<and> date_search phrase = Some g
        \<and> normalise_dates g = Inl e" using g Inl by simp
    then show ?thesis by blast
  next
    case (Inr d)
    then have "normalise_phrase (replace phrase g d) = Inl e"
      using "1.prems" g by (auto simp: normalise_phrase.simps split: sum.splits)
    from "1.IH"[OF g Inr this] obtain k p dg where
      "phrase_at_call k (replace phrase g d) = Some p" "date_search p = Some dg"
      "normalise_dates dg = Inl e" by blast
    then have "phrase_at_call (Suc k) phrase = Some p \<and> date_search p = Some dg
        \<and> normalise_dates dg = Inl e" using g Inr by simp
    then show ?thesis by blast
  qed
qed

text \<open>
  C10, as amended. \<open>normalise_phrase\<close> searches the phrase for a date, replaces it by its
  spoken form and calls itself on the rewritten phrase, so it searches once in the
  phrase as given and once more after every replacement. When the date that one of
  these searches finds, in the outermost call or in any nested one, has a day (without
  its leading zeros) that is not in the table of days, or a month that is not in the
  table of months, or is a date on which \<open>normalise_dates\<close> raises KeyError for another
  reason, \<open>normalise_phrase\<close> raises KeyError and returns no list of words.
\<close>

theorem normalise_phrase_bad_date:
  assumes call: "phrase_at_call k phrase = Some p"
    and found: "date_search p = Some date_group"
    and match: "date_match date_group = Some (g1, g2, g3, g0)"
    and bad: "dys (lstrip0 g1) = None \<or> mths (lstrip0 g2) = None
              \<or> normalise_dates date_group = Inl KeyError"
  shows "normalise_phrase phrase = Inl KeyError"
proof -
  have "normalise_dates date_group = Inl KeyError"
    using bad bad_date_key_error[OF match] by blast
  with call found show ?thesis by (rule normalise_phrase_error_at_call)
qed

theorem normalise_phrase_bad_date_witness:
  "phrase_at_call 1 ''on 1/2 and 99/99'' = Some ''on february first and 99/99''
   \<and> date_search ''on february first and 99/99'' = Some ''99/99''
   \<and> date_match ''99/99'' = Some (''99'', ''99'', None, ''99/99'')
   \<and> dys (lstrip0 ''99'') = None
   \<and> normalise_phrase ''on 1/2 and 99/99'' = Inl KeyError"
proof -
  have h: "phrase_at_call 1 ''on 1/2 and 99/99'' = Some ''on february first and 99/99''"
    "date_search ''on february first and 99/99'' = Some ''99/99''"
    "date_match ''99/99'' = Some (''99'', ''99'', None, ''99/99'')"
    "dys (lstrip0 ''99'') = None"
    by code_simp+
  have "normalise_phrase ''on 1/2 and 99/99'' = Inl KeyError"
    using h(1) h(2) h(3) by (rule normalise_phrase_bad_date) (simp add: h(4))
  then show ?thesis using h by simp
qed

text \<open>
  The claim as stated is about every phrase that contains a text matching the pattern
  with a day or month out of range. Such a text need not be what any search finds. In
  \<^verbatim>\<open>1/2 41/2\<close> the search finds \<^verbatim>\<open>1/2\<close>, and replacing every occurrence of it also rewrites
  the inside of \<^verbatim>\<open>41/2\<close>; in \<^verbatim>\<open>1/2/34/56\<close> the match \<^verbatim>\<open>1/2/34\<close> takes the 34 as its year.
  In both, normalisation returns a list of words.
\<close>

theorem normalise_phrase_hidden_date_counterexample:
  "date_match ''41/2'' = Some (''41'', ''2'', None, ''41/2'')
   \<and> dys (lstrip0 ''41'') = None
   \<and> normalise_phrase ''1/2 41/2'' =
       Inr (''february first 4february first'',
            [''february'', ''first'', ''4february'', ''first''])
   \<and> date_match ''34/56'' = Some (''34'', ''56'', None, ''34/56'')
   \<and> dys (lstrip0 ''34'') = None \<and> mths (lstrip0 ''56'') = None
   \<and> normalise_phrase ''1/2/34/56'' =
       Inr (''february first nineteen thirty four/56'',
            [''february'', ''first'', ''nineteen'', ''thirty'', ''four56''])"
  by code_simp

section \<open>Words missing from the dictionary\<close>

lemma phone_loop_total:
  assumes "[] \<notin> ran dictionary"
  shows "phone_loop dictionary ws (list_of_phones, out) =
     Inr (list_of_phones
            @ concat (map (\<lambda>w. hd (the (dictionary w))) (filter (\<lambda>w. dictionary w \<noteq> None) ws)),
          out @ map (\<lambda>w. ''Word not found in the dictionary: '' @ w)
                  (filter (\<lambda>w. dictionary w = None) ws))"
proof (induction ws arbitrary: list_of_phones out)
  case Nil
  then show ?case by simp
next
  case (Cons w ws)
  show ?case
  proof (cases "dictionary w")
    case None
    then show ?thesis using Cons by simp
  next
    case (Some prons)
    then have "prons \<noteq> []" using assms by (auto simp: ran_def)
    then obtain p ps where "prons = p # ps" by (cases prons) auto
    then show ?thesis using Some Cons by simp
  qed
qed

text \<open>
  C8. When the phrase normalises to a list of words and every entry of the dictionary
  has at least one pronunciation, \<open>get_phone_seq\<close> (with no reversal) returns, without
  raising, the concatenation in order of the first pronunciations of the words that the
  dictionary has; a word that it does not have adds no phone and is reported in a
  printed line.
\<close>

theorem get_phone_seq_skips_unknown_words:
  assumes norm: "normalise_phrase phrase = Inr (phrase', ws)"
    and prons: "[] \<notin> ran dictionary"
  shows "get_phone_seq dictionary phrase None =
     Inr (concat (map (\<lambda>w. hd (the (dictionary w))) (filter (\<lambda>w. dictionary w \<noteq> None) ws)),
          map (\<lambda>w. ''Word not found in the dictionary: '' @ w)
            (filter (\<lambda>w. dictionary w = None) ws),
          phrase')"
  using norm by (simp add: get_phone_seq_def phone_loop_total[OF prons])

theorem get_phone_seq_skips_unknown_words_witness:
  "normalise_phrase ''Go xyzzy home!'' = Inr (''Go xyzzy home!'', [''go'', ''xyzzy'', ''home''])
   \<and> [] \<notin> ran [''go'' \<mapsto> [ [''G'', ''OW1''] ],
                  ''home'' \<mapsto> [ [''HH'', ''OW1'', ''M''], [''HH'', ''OW0'', ''M''] ]]
   \<and> get_phone_seq [''go'' \<mapsto> [ [''G'', ''OW1''] ],
                    ''home'' \<mapsto> [ [''HH'', ''OW1'', ''M''], [''HH'', ''OW0'', ''M''] ]]
        ''Go xyzzy home!'' None =
      Inr ([''G'', ''OW1'', ''HH'', ''OW1'', ''M''],
           [''Word not found in the dictionary: xyzzy''], ''Go xyzzy home!'')"
proof -
  have norm: "normalise_phrase ''Go xyzzy home!'' =
      Inr (''Go xyzzy home!'', [''go'', ''xyzzy'', ''home''])"
    by code_simp
  have prons: "[] \<notin> ran [''go'' \<mapsto> [ [''G'', ''OW1''] ],
                  ''home'' \<mapsto> [ [''HH'', ''OW1'', ''M''], [''HH'', ''OW0'', ''M''] ]]"
    by (auto simp: ran_def split: if_splits)
  show ?thesis
    using get_phone_seq_skips_unknown_words [OF norm prons] norm prons by simp
qed

text \<open>
  With \<^verbatim>\<open>reverse = 'words'\<close> the same holds of the reversed list of words, and with
  \<^verbatim>\<open>reverse = 'phones'\<close> the list of phones is reversed at the end.
\<close>

lemma get_phone_seq_reverse:
  assumes norm: "normalise_phrase phrase = Inr (phrase', ws)"
    and prons: "[] \<notin> ran dictionary"
  shows "get_phone_seq dictionary phrase (Some ''words'') =
     Inr (concat (map (\<lambda>w. hd (the (dictionary w)))
            (filter (\<lambda>w. dictionary w \<noteq> None) (rev ws))),
          map (\<lambda>w. ''Word not found in the dictionary: '' @ w)
            (filter (\<lambda>w. dictionary w = None) (rev ws)),
          phrase')"
    and "get_phone_seq dictionary phrase (Some ''phones'') =
     Inr (rev (concat (map (\<lambda>w. hd (the (dictionary w)))
            (filter (\<lambda>w. dictionary w \<noteq> None) ws))),
          map (\<lambda>w. ''Word not found in the dictionary: '' @ w)
            (filter (\<lambda>w. dictionary w = None) ws),
          phrase')"
  using norm by (simp_all add: get_phone_seq_def Let_def phone_loop_total[OF prons])

section \<open>Diphone names\<close>

lemma diphone_loop_append:
  "list_all (\<lambda>i. i + 1 < length l) is \<Longrightarrow>
   diphone_loop l (is @ js) acc =
   diphone_loop l js (acc @ map (\<lambda>i. l ! i @ ''-'' @ l ! (i + 1) @ ''.wav'') is)"
  by (induction "is" arbitrary: acc) auto

lemma diphone_loop_range:
  assumes "l \<noteq> []"
  shows "diphone_loop l [0..<length l] [] =
         map (\<lambda>i. l ! i @ ''-'' @ l ! (i + 1) @ ''.wav'') [0..<length l - 1]"
proof -
  obtain n where n: "length l = Suc n" using assms by (cases l) auto
  have "list_all (\<lambda>i. i + 1 < length l) [0..<n]" using n by (simp add: list_all_iff)
  then have "diphone_loop l ([0..<n] @ [n]) [] =
      diphone_loop l [n] ([] @ map (\<lambda>i. l ! i @ ''-'' @ l ! (i + 1) @ ''.wav'') [0..<n])"
    by (rule diphone_loop_append)
  then show ?thesis using n by simp
qed

lemma adjacent_pairs:
  "map (\<lambda>i. f (l ! i) (l ! (i + 1))) [0..<length l - 1] = map (\<lambda>(a, b). f a b) (zip l (tl l))"
  by (rule nth_equalityI) (auto simp: nth_tl)

text \<open>
  C5. For a list of n phones, \<open>phones_to_diphones\<close> returns exactly n + 1 names, one for
  each pair of neighbours in the list of lowercased phones without their digits, with
  \<^verbatim>\<open>pau\<close> put in front and behind: the two phones joined by a hyphen, then \<^verbatim>\<open>.wav\<close>.
  The empty list gives the one name built from \<^verbatim>\<open>pau\<close> and \<^verbatim>\<open>pau\<close>.
\<close>

theorem phones_to_diphones_keys:
  "phones_to_diphones phones =
     map (\<lambda>(a, b). a @ ''-'' @ b @ ''.wav'')
       (zip (''pau'' # map (\<lambda>p. filter (\<lambda>c. \<not> is_digit c) (lower p)) phones @ [''pau''])
            (map (\<lambda>p. filter (\<lambda>c. \<not> is_digit c) (lower p)) phones @ [''pau'']))
   \<and> length (phones_to_diphones phones) = length phones + 1
   \<and> phones_to_diphones [] = [''pau-pau.wav'']"
proof -
  let ?fil = "map (\<lambda>p. filter (\<lambda>c. \<not> is_digit c) (lower p)) phones"
  let ?l = "''pau'' # ?fil @ [''pau'']"
  have "phones_to_diphones phones = diphone_loop ?l [0..<length ?l] []"
    by (simp add: phones_to_diphones_def Let_def comp_def)
  also have "\<dots> = map (\<lambda>i. ?l ! i @ ''-'' @ ?l ! (i + 1) @ ''.wav'') [0..<length ?l - 1]"
    by (rule diphone_loop_range) simp
  also have "\<dots> = map (\<lambda>(a, b). a @ ''-'' @ b @ ''.wav'') (zip ?l (tl ?l))"
    by (rule adjacent_pairs)
  finally have keys: "phones_to_diphones phones =
      map (\<lambda>(a, b). a @ ''-'' @ b @ ''.wav'') (zip ?l (?fil @ [''pau'']))"
    by simp
  have len: "length (phones_to_diphones phones) = length phones + 1"
    unfolding keys by simp
  have empty: "phones_to_diphones [] = [''pau-pau.wav'']"
    by (simp add: phones_to_diphones_def)
  from keys len empty show ?thesis by blast
qed

theorem phones_to_diphones_keys_witness:
  "phones_to_diphones [''HH'', ''AH0'', ''L'', ''OW1''] =
     [''pau-hh.wav'', ''hh-ah.wav'', ''ah-l.wav'', ''l-ow.wav'', ''ow-pau.wav'']"
proof -
  have keys: "phones_to_diphones [''HH'', ''AH0'', ''L'', ''OW1''] =
     map (\<lambda>(a, b). a @ ''-'' @ b @ ''.wav'')
       (zip (''pau'' # map (\<lambda>p. filter (\<lambda>c. \<not> is_digit c) (lower p))
                          [''HH'', ''AH0'', ''L'', ''OW1''] @ [''pau''])
            (map (\<lambda>p. filter (\<lambda>c. \<not> is_digit c) (lower p))
                          [''HH'', ''AH0'', ''L'', ''OW1''] @ [''pau'']))"
    using phones_to_diphones_keys [of "[''HH'', ''AH0'', ''L'', ''OW1'']"] by (rule conjunct1)
  also have "\<dots> = [''pau-hh.wav'', ''hh-ah.wav'', ''ah-l.wav'', ''l-ow.wav'', ''ow-pau.wav'']"
    by code_simp
  finally show ?thesis .
qed

section \<open>Synthesis without smoothing\<close>

lemma resolve_loop_plain:
  "resolve_loop dips False ks (concat_ary, lfs, out) =
     (concat_ary @ concat (map (\<lambda>k. the (dips k)) (filter (\<lambda>k. dips k \<noteq> None) ks)),
      lfs,
      out @ map (\<lambda>k. ''Missing diphone: '' @ k @ '', proceeding as normal.'')
              (filter (\<lambda>k. dips k = None) ks))"
  by (induction ks arbitrary: concat_ary lfs out) (auto split: option.splits)

text \<open>
  C7. Without smoothing, \<open>synthesise\<close> always returns: the buffer is the concatenation,
  in order, of the arrays of exactly those diphone names that the inventory has; every
  other name is reported in a printed line and skipped, and nothing is put in its
  place. (With \<^verbatim>\<open>reverse = 'signal'\<close> the buffer is that concatenation reversed.) The
  inventory is unchanged.
\<close>

theorem synthesise_plain:
  "synthesise self phones reverse False =
     Inr (\<lparr>data =
             (if reverse = Some ''signal''
              then rev (concat (map (\<lambda>k. the (diphones self k))
                     (filter (\<lambda>k. diphones self k \<noteq> None) (phones_to_diphones phones))))
              else concat (map (\<lambda>k. the (diphones self k))
                     (filter (\<lambda>k. diphones self k \<noteq> None) (phones_to_diphones phones)))),
           audio_rate = rate self\<rparr>,
          map (\<lambda>k. ''Missing diphone: '' @ k @ '', proceeding as normal.'')
            (filter (\<lambda>k. diphones self k = None) (phones_to_diphones phones)),
          self)"
  by (simp add: synthesise_def resolve_loop_plain)

lemma keys_a_b: "phones_to_diphones [''A'', ''B''] = [''pau-a.wav'', ''a-b.wav'', ''b-pau.wav'']"
  by code_simp

theorem synthesise_plain_witness:
  "synthesise \<lparr>wav_folder = ''diphones'', rate = 200,
       diphones = [''pau-a.wav'' \<mapsto> [1, 2, 3, 4], ''b-pau.wav'' \<mapsto> [5, 6, 7, 8]]\<rparr>
     [''A'', ''B''] None False =
   Inr (\<lparr>data = [1, 2, 3, 4, 5, 6, 7, 8], audio_rate = 200\<rparr>,
        [''Missing diphone: a-b.wav, proceeding as normal.''],
        \<lparr>wav_folder = ''diphones'', rate = 200,
          diphones = [''pau-a.wav'' \<mapsto> [1, 2, 3, 4], ''b-pau.wav'' \<mapsto> [5, 6, 7, 8]]\<rparr>)"
  using synthesise_plain [of "\<lparr>wav_folder = ''diphones'', rate = 200,
       diphones = [''pau-a.wav'' \<mapsto> [1, 2, 3, 4], ''b-pau.wav'' \<mapsto> [5, 6, 7, 8]]\<rparr>"
     "[''A'', ''B'']" None]
  by (simp add: keys_a_b)

section \<open>The ramp at the end of a unit\<close>

text \<open>
  C3, as amended. On an array of at least N samples, \<open>smooth_end\<close> leaves every sample
  before the last N unchanged and replaces the sample at position i of the last N
  (i from 0, the first of them, to N - 1, the very last sample of the array) by that
  sample times the float (N - 1 - i) / N, the product taken in floating point and
  truncated towards zero. So the sample at offset j from the end is scaled by j / N,
  and the very last sample by 0.
\<close>

theorem smooth_end_ramp:
  assumes "nr \<le> length arr"
  shows "smooth_end arr nr =
     Inr (take (length arr - nr) arr @
          map (\<lambda>i. py_int (fl_mul (arr ! (length arr - nr + i))
                      (py_truediv (int (nr - 1 - i)) (int nr)))) [0..<nr])"
  using assms by (rule smooth_end_window)

theorem smooth_end_ramp_witness:
  "(2::nat) \<le> length [10, 20, 30, 40 :: int] \<and>
   smooth_end [10, 20, 30, 40] 2 = Inr [10, 20, 15, 0]"
proof -
  have le: "(2::nat) \<le> length [10, 20, 30, 40 :: int]" by simp
  have "smooth_end [10, 20, 30, 40] 2 =
     Inr (take (length [10, 20, 30, 40 :: int] - 2) [10, 20, 30, 40] @
          map (\<lambda>i. py_int (fl_mul ([10, 20, 30, 40] ! (length [10, 20, 30, 40 :: int] - 2 + i))
                      (py_truediv (int (2 - 1 - i)) (int 2)))) [0..<2])"
    using le by (rule smooth_end_ramp)
  also have "\<dots> = Inr [10, 20, 15, 0]" by code_simp
  finally show ?thesis using le by simp
qed

text \<open>
  The claim as stated, with offset 0 the very last sample scaled by (N - 1 - 0) / N, fails
  for four samples of 10 and N = 2: the last sample becomes 0, where the claim gives
  the truncation of 10 * (1 / 2), which is 5. The product is a float product: 49 times
  the float 1 / 49 is below 1 and truncates to 0. On a unit shorter than N the call
  raises IndexError.
\<close>

theorem smooth_end_last_sample_counterexample:
  "smooth_end [10, 10, 10, 10] 2 = Inr [10, 10, 5, 0]
   \<and> [10, 10, 5, 0 :: int] ! (4 - 1 - 0) = 0
   \<and> py_int (fl_mul 10 (py_truediv (2 - 1 - 0) 2)) = 5
   \<and> py_int (fl_mul 49 (py_truediv 1 49)) = 0
   \<and> smooth_end [10] 2 = Inl IndexError"
  by code_simp

section \<open>Smoothing and the inventory\<close>

text \<open>
  C1. The claim says that \<open>synthesise\<close> leaves the arrays of the inventory unchanged, so
  that a second call with the same phones and flags returns the same buffer. With
  smoothing the code ramps the arrays of the inventory themselves. Below, with a rate of
  200 (N = 2) and two units of four samples of 10, the first call returns
  10, 10, 5, 5, 10, 10 and leaves the two arrays ramped in the inventory; the second call,
  on the synthesiser as the first call left it, returns 10, 10, 2, 2, 10, 10.
\<close>

theorem synthesise_crossfade_changes_inventory:
  "map_sum id (\<lambda>(a, out, s). (data a, diphones s ''pau-a.wav'', diphones s ''a-pau.wav''))
     (synthesise \<lparr>wav_folder = ''diphones'', rate = 200,
          diphones = [''pau-a.wav'' \<mapsto> [10, 10, 10, 10], ''a-pau.wav'' \<mapsto> [10, 10, 10, 10]]\<rparr>
        [''A''] None True)
     = Inr ([10, 10, 5, 5, 10, 10], Some [10, 10, 5, 0], Some [0, 5, 10, 10])
   \<and> map_sum id (\<lambda>(a, out, s). data a)
     (bind_err
        (synthesise \<lparr>wav_folder = ''diphones'', rate = 200,
           diphones = [''pau-a.wav'' \<mapsto> [10, 10, 10, 10], ''a-pau.wav'' \<mapsto> [10, 10, 10, 10]]\<rparr>
           [''A''] None True)
        (\<lambda>(a, out, s). synthesise s [''A''] None True))
     = Inr [10, 10, 2, 2, 10, 10]"
  by code_simp

section \<open>Smoothing with fewer than two units\<close>

text \<open>
  C2. The claim says that with smoothing, no unit found gives an empty buffer and one
  unit found gives that unit unchanged. In the code, \<^verbatim>\<open>list_for_smoothing[0]\<close> raises
  IndexError when no unit is found; and a single unit of four samples of 10, at a rate
  of 200, is ramped at both ends and overlapped with itself into six samples.
\<close>

theorem synthesise_crossfade_few_units:
  "map_sum id (\<lambda>(a, out, s). data a)
     (synthesise \<lparr>wav_folder = ''diphones'', rate = 200, diphones = Map.empty\<rparr> [] None True)
     = Inl IndexError
   \<and> map_sum id (\<lambda>(a, out, s). data a)
     (synthesise \<lparr>wav_folder = ''diphones'', rate = 200,
          diphones = [''pau-pau.wav'' \<mapsto> [10, 10, 10, 10]]\<rparr> [] None True)
     = Inr [0, 5, 5, 5, 5, 0]"
  by code_simp

text \<open>
  The first case is general: whenever the inventory has none of the names, \<open>synthesise\<close>
  with smoothing raises IndexError.
\<close>

lemma synthesise_crossfade_no_unit:
  assumes "filter (\<lambda>k. diphones self k \<noteq> None) (phones_to_diphones phones) = []"
  shows "synthesise self phones reverse True = Inl IndexError"
  using assms by (simp add: synthesise_def resolve_loop_smooth crossfade_def smooth_pass_def)

section \<open>The length of a smoothed buffer\<close>

text \<open>
  C6, as amended. Let the names that the inventory has, in order, be m units with m at
  least 2, and let N be \<^verbatim>\<open>int(rate / 100)\<close>, the quotient truncated, with N at least 1.
  When the first and the last unit have at least N samples and every unit between them
  has at least 2 N, \<open>synthesise\<close> with smoothing returns. The smoothing pass keeps the
  length of every unit. The loop that builds \<^verbatim>\<open>val_to_add\<close> yields one overlap segment
  for each pair of neighbours, and every segment has exactly N samples. When moreover no
  unit is ramped twice at the same end, that is no name occurs twice among the units
  other than the last, nor among the units other than the first, and a unit that is both
  the first and the last has at least 2 N samples, then the overlap segment of every pair
  is the elementwise sum of the tail-ramped last N samples of the earlier unit and the
  head-ramped first N samples of the later unit, both as the inventory held them before
  the call. The buffer is the one the specification describes (reversed when
  \<^verbatim>\<open>reverse = 'signal'\<close>), and its length is the sum of the lengths of the units minus
  (m - 1) N.
\<close>

theorem synthesise_crossfade_length:
  assumes us: "us = filter (\<lambda>k. diphones self k \<noteq> None) (phones_to_diphones phones)"
    and n: "n = affected_values_of (rate self)"
    and two: "2 \<le> length us" and pos: "0 < n"
    and first: "n \<le> unit_length (diphones self) (hd us)"
    and final: "n \<le> unit_length (diphones self) (last us)"
    and middle: "list_all (\<lambda>k. 2 * n \<le> unit_length (diphones self) k) (butlast (tl us))"
  shows "\<exists>a out self'. synthesise self phones reverse True = Inr (a, out, self')
     \<and> smooth_pass (diphones self) us n = Inr (diphones self', us)
     \<and> unit_length (diphones self') = unit_length (diphones self)
     \<and> overlap_loop (diphones self') us n [0..<length us] [] =
         Inr (map (\<lambda>i. overlap_segment (diphones self') (us ! i) (us ! (i + 1)) n)
                [0..<length us - 1])
     \<and> list_all (\<lambda>v. length v = n)
         (map (\<lambda>i. overlap_segment (diphones self') (us ! i) (us ! (i + 1)) n)
            [0..<length us - 1])
     \<and> (distinct (butlast us) \<and> distinct (tl us)
          \<and> (hd us = last us \<longrightarrow> 2 * n \<le> unit_length (diphones self) (hd us))
        \<longrightarrow> (\<forall>i<length us - 1.
               overlap_segment (diphones self') (us ! i) (us ! (i + 1)) n
                 = ramped_overlap (diphones self) (us ! i) (us ! (i + 1)) n))
     \<and> data a = (if reverse = Some ''signal'' then rev (crossfaded (diphones self') us n)
                 else crossfaded (diphones self') us n)
     \<and> length (data a) =
         sum_list (map (unit_length (diphones self)) us) - (length us - 1) * n"
proof -
  from crossfade_result[OF two pos first final middle, of "[]"] obtain d body where
    r: "crossfade (diphones self) us n [] = Inr ([] @ body, d)"
      "body = crossfaded d us n"
      "smooth_pass (diphones self) us n = Inr (d, us)"
      "unit_length d = unit_length (diphones self)"
      "overlap_loop d us n [0..<length us] [] =
         Inr (map (\<lambda>i. overlap_segment d (us ! i) (us ! (i + 1)) n) [0..<length us - 1])"
      "list_all (\<lambda>v. length v = n)
         (map (\<lambda>i. overlap_segment d (us ! i) (us ! (i + 1)) n) [0..<length us - 1])"
      "length body = sum_list (map (unit_length (diphones self)) us) - (length us - 1) * n"
    by blast
  let ?a = "\<lparr>data = (if reverse = Some ''signal'' then rev body else body),
             audio_rate = rate self\<rparr>"
  let ?out = "map (\<lambda>k. ''Missing diphone: '' @ k @ '', proceeding as normal.'')
      (filter (\<lambda>k. diphones self k = None) (phones_to_diphones phones))"
  let ?self = "self\<lparr>diphones := d\<rparr>"
  have main: "synthesise self phones reverse True = Inr (?a, ?out, ?self)"
    using r(1) us n by (simp add: synthesise_def resolve_loop_smooth)
  have sel: "diphones ?self = d" by simp
  have buf: "data ?a = (if reverse = Some ''signal'' then rev (crossfaded d us n)
      else crossfaded d us n)"
    using r(2) by simp
  have len: "length (data ?a)
      = sum_list (map (unit_length (diphones self)) us) - (length us - 1) * n"
    using r(7) by simp
  have ramps: "distinct (butlast us) \<and> distinct (tl us)
          \<and> (hd us = last us \<longrightarrow> 2 * n \<le> unit_length (diphones self) (hd us))
        \<longrightarrow> (\<forall>i<length us - 1.
               overlap_segment d (us ! i) (us ! (i + 1)) n
                 = ramped_overlap (diphones self) (us ! i) (us ! (i + 1)) n)"
  proof (intro impI allI)
    fix i
    assume once: "distinct (butlast us) \<and> distinct (tl us)
          \<and> (hd us = last us \<longrightarrow> 2 * n \<le> unit_length (diphones self) (hd us))"
      and i: "i < length us - 1"
    from once have o: "distinct (butlast us)" "distinct (tl us)"
      "hd us = last us \<longrightarrow> 2 * n \<le> unit_length (diphones self) (hd us)" by blast+
    show "overlap_segment d (us ! i) (us ! (i + 1)) n
        = ramped_overlap (diphones self) (us ! i) (us ! (i + 1)) n"
      by (rule ramped_overlaps[OF two r(3) r(4) first final middle o i])
  qed
  show ?thesis
  proof (intro exI conjI)
    show "synthesise self phones reverse True = Inr (?a, ?out, ?self)" by (rule main)
    show "smooth_pass (diphones self) us n = Inr (diphones ?self, us)"
      unfolding sel by (rule r(3))
    show "unit_length (diphones ?self) = unit_length (diphones self)"
      unfolding sel by (rule r(4))
    show "overlap_loop (diphones ?self) us n [0..<length us] [] =
         Inr (map (\<lambda>i. overlap_segment (diphones ?self) (us ! i) (us ! (i + 1)) n)
                [0..<length us - 1])"
      unfolding sel by (rule r(5))
    show "list_all (\<lambda>v. length v = n)
         (map (\<lambda>i. overlap_segment (diphones ?self) (us ! i) (us ! (i + 1)) n)
            [0..<length us - 1])"
      unfolding sel by (rule r(6))
    show "distinct (butlast us) \<and> distinct (tl us)
          \<and> (hd us = last us \<longrightarrow> 2 * n \<le> unit_length (diphones self) (hd us))
        \<longrightarrow> (\<forall>i<length us - 1.
               overlap_segment (diphones ?self) (us ! i) (us ! (i + 1)) n
                 = ramped_overlap (diphones self) (us ! i) (us ! (i + 1)) n)"
      unfolding sel by (rule ramps)
    show "data ?a = (if reverse = Some ''signal'' then rev (crossfaded (diphones ?self) us n)
                 else crossfaded (diphones ?self) us n)"
      unfolding sel by (rule buf)
    show "length (data ?a) =
         sum_list (map (unit_length (diphones self)) us) - (length us - 1) * n"
      by (rule len)
  qed
qed

lemma keys_for_a_b_units:
  "filter (\<lambda>k. diphones \<lparr>wav_folder = ''diphones'', rate = 200,
        diphones = [''pau-a.wav'' \<mapsto> [10, 10, 10, 10], ''a-b.wav'' \<mapsto> [1, 2, 3, 4, 5],
                    ''b-pau.wav'' \<mapsto> [10, 10, 10, 10]]\<rparr> k \<noteq> None)
     (phones_to_diphones [''A'', ''B'']) = [''pau-a.wav'', ''a-b.wav'', ''b-pau.wav'']"
  by (simp add: keys_a_b)

lemma window_200: "affected_values_of 200 = 2"
  by code_simp

lemma ramps_of_a_b_units:
  "ramped_overlap [''pau-a.wav'' \<mapsto> [10, 10, 10, 10], ''a-b.wav'' \<mapsto> [1, 2, 3, 4, 5],
                    ''b-pau.wav'' \<mapsto> [10, 10, 10, 10]] ''pau-a.wav'' ''a-b.wav'' 2 = [5, 1]
   \<and> ramped_overlap [''pau-a.wav'' \<mapsto> [10, 10, 10, 10], ''a-b.wav'' \<mapsto> [1, 2, 3, 4, 5],
                    ''b-pau.wav'' \<mapsto> [10, 10, 10, 10]] ''a-b.wav'' ''b-pau.wav'' 2 = [2, 5]"
  by code_simp

theorem synthesise_crossfade_length_witness:
  "filter (\<lambda>k. diphones \<lparr>wav_folder = ''diphones'', rate = 200,
        diphones = [''pau-a.wav'' \<mapsto> [10, 10, 10, 10], ''a-b.wav'' \<mapsto> [1, 2, 3, 4, 5],
                    ''b-pau.wav'' \<mapsto> [10, 10, 10, 10]]\<rparr> k \<noteq> None)
     (phones_to_diphones [''A'', ''B'']) = [''pau-a.wav'', ''a-b.wav'', ''b-pau.wav'']
   \<and> affected_values_of 200 = 2
   \<and> (\<exists>a out self'.
        synthesise \<lparr>wav_folder = ''diphones'', rate = 200,
          diphones = [''pau-a.wav'' \<mapsto> [10, 10, 10, 10], ''a-b.wav'' \<mapsto> [1, 2, 3, 4, 5],
                      ''b-pau.wav'' \<mapsto> [10, 10, 10, 10]]\<rparr> [''A'', ''B''] None True
          = Inr (a, out, self')
        \<and> overlap_segment (diphones self') ''pau-a.wav'' ''a-b.wav'' 2 = [5, 1]
        \<and> overlap_segment (diphones self') ''a-b.wav'' ''b-pau.wav'' 2 = [2, 5]
        \<and> length (data a) = 9)"
proof -
  let ?d = "[''pau-a.wav'' \<mapsto> [10, 10, 10, 10], ''a-b.wav'' \<mapsto> [1, 2, 3, 4, 5 :: int],
                    ''b-pau.wav'' \<mapsto> [10, 10, 10, 10]]"
  let ?s = "\<lparr>wav_folder = ''diphones'', rate = 200, diphones = ?d\<rparr>"
  let ?us = "[''pau-a.wav'', ''a-b.wav'', ''b-pau.wav'']"
  have us: "?us = filter (\<lambda>k. diphones ?s k \<noteq> None) (phones_to_diphones [''A'', ''B''])"
    using keys_for_a_b_units by simp
  have n: "2 = affected_values_of (rate ?s)" by (simp add: window_200)
  have hyps: "2 \<le> length ?us" "0 < (2::nat)"
    "2 \<le> unit_length (diphones ?s) (hd ?us)"
    "2 \<le> unit_length (diphones ?s) (last ?us)"
    "list_all (\<lambda>k. 2 * 2 \<le> unit_length (diphones ?s) k) (butlast (tl ?us))"
    by (simp_all add: unit_length_def)
  have total: "sum_list (map (unit_length (diphones ?s)) ?us) - (length ?us - 1) * 2 = 9"
    by (simp add: unit_length_def)
  have once: "distinct (butlast ?us) \<and> distinct (tl ?us)
      \<and> (hd ?us = last ?us \<longrightarrow> 2 * 2 \<le> unit_length (diphones ?s) (hd ?us))"
    by simp
  from synthesise_crossfade_length [OF us n hyps, of None] obtain a out self' where
    r: "synthesise ?s [''A'', ''B''] None True = Inr (a, out, self')"
      "distinct (butlast ?us) \<and> distinct (tl ?us)
          \<and> (hd ?us = last ?us \<longrightarrow> 2 * 2 \<le> unit_length (diphones ?s) (hd ?us))
        \<longrightarrow> (\<forall>i<length ?us - 1.
               overlap_segment (diphones self') (?us ! i) (?us ! (i + 1)) 2
                 = ramped_overlap (diphones ?s) (?us ! i) (?us ! (i + 1)) 2)"
      "length (data a) =
         sum_list (map (unit_length (diphones ?s)) ?us) - (length ?us - 1) * 2"
    by blast
  from r(2) once have all: "\<forall>i<length ?us - 1.
               overlap_segment (diphones self') (?us ! i) (?us ! (i + 1)) 2
                 = ramped_overlap (diphones ?s) (?us ! i) (?us ! (i + 1)) 2" by blast
  have o0: "overlap_segment (diphones self') ''pau-a.wav'' ''a-b.wav'' 2
      = ramped_overlap ?d ''pau-a.wav'' ''a-b.wav'' 2"
    using all[rule_format, of 0] by simp
  have o1: "overlap_segment (diphones self') ''a-b.wav'' ''b-pau.wav'' 2
      = ramped_overlap ?d ''a-b.wav'' ''b-pau.wav'' 2"
    using all[rule_format, of 1] by simp
  have "synthesise ?s [''A'', ''B''] None True = Inr (a, out, self')
        \<and> overlap_segment (diphones self') ''pau-a.wav'' ''a-b.wav'' 2 = [5, 1]
        \<and> overlap_segment (diphones self') ''a-b.wav'' ''b-pau.wav'' 2 = [2, 5]
        \<and> length (data a) = 9"
    using r(1) r(3) total o0 o1 ramps_of_a_b_units by simp
  then have "\<exists>a out self'. synthesise ?s [''A'', ''B''] None True = Inr (a, out, self')
        \<and> overlap_segment (diphones self') ''pau-a.wav'' ''a-b.wav'' 2 = [5, 1]
        \<and> overlap_segment (diphones self') ''a-b.wav'' ''b-pau.wav'' 2 = [2, 5]
        \<and> length (data a) = 9"
    by blast
  then show ?thesis using keys_for_a_b_units window_200 by blast
qed

text \<open>
  The claim as stated fails in six ways. At a rate of 200 (N = 2), units of 4, 3 and 4
  samples give 8 samples, not 4 + 3 + 4 - 2 * 2 = 7: the middle unit is shorter than 2 N.
  A first unit of one sample makes \<open>smooth_end\<close> raise IndexError. At a rate of 199 the
  window is 1, where rounding 1.99 gives 2, and two units of 4 samples give 7 samples.
  At a rate of 50 the window is 0 and \<^verbatim>\<open>np.add\<close> raises ValueError on a whole unit and
  an empty slice. For the phones A, A, A the unit \<^verbatim>\<open>a-a.wav\<close> occurs twice, so the one
  array is ramped twice at each end, from 10, 10, 10, 10 to 0, 2, 2, 0: the overlap
  segment of the pair it forms with itself is 2, 2, where the tail ramp and the head
  ramp of the unit add up to 5, 5. For the phones pau, A, pau the unit \<^verbatim>\<open>pau-pau.wav\<close>
  is both the first and the last; with 3 samples, fewer than 2 N, its head ramp also
  changes the tail window, and the first overlap segment is 2, 5 instead of 5, 5.
\<close>

theorem synthesise_crossfade_length_counterexample:
  "affected_values_of 200 = 2
   \<and> map_sum id (\<lambda>(a, out, s). (data a, length (data a)))
       (synthesise \<lparr>wav_folder = ''diphones'', rate = 200,
          diphones = [''pau-a.wav'' \<mapsto> [1, 2, 3, 4], ''a-b.wav'' \<mapsto> [1, 2, 3],
                      ''b-pau.wav'' \<mapsto> [1, 2, 3, 4]]\<rparr> [''A'', ''B''] None True)
       = Inr ([1, 2, 1, 0, 0, 1, 3, 4], 8)
   \<and> (4 + 3 + 4) - (3 - 1) * 2 = (7::nat)
   \<and> map_sum id (\<lambda>(a, out, s). data a)
       (synthesise \<lparr>wav_folder = ''diphones'', rate = 200,
          diphones = [''pau-a.wav'' \<mapsto> [1], ''a-pau.wav'' \<mapsto> [1, 2, 3, 4]]\<rparr>
          [''A''] None True)
       = Inl IndexError
   \<and> affected_values_of 199 = 1 \<and> rne_div 199 100 = 2
   \<and> map_sum id (\<lambda>(a, out, s). length (data a))
       (synthesise \<lparr>wav_folder = ''diphones'', rate = 199,
          diphones = [''pau-a.wav'' \<mapsto> [1, 2, 3, 4], ''a-pau.wav'' \<mapsto> [1, 2, 3, 4]]\<rparr>
          [''A''] None True)
       = Inr 7
   \<and> affected_values_of 50 = 0
   \<and> map_sum id (\<lambda>(a, out, s). data a)
       (synthesise \<lparr>wav_folder = ''diphones'', rate = 50,
          diphones = [''pau-a.wav'' \<mapsto> [1, 2, 3, 4], ''a-pau.wav'' \<mapsto> [1, 2, 3, 4]]\<rparr>
          [''A''] None True)
       = Inl ValueError
   \<and> map_sum id (\<lambda>(a, out, s). (data a, the (diphones s ''a-a.wav''),
          overlap_segment (diphones s) ''a-a.wav'' ''a-a.wav'' 2))
       (synthesise \<lparr>wav_folder = ''diphones'', rate = 200,
          diphones = [''pau-a.wav'' \<mapsto> [10, 10, 10, 10], ''a-a.wav'' \<mapsto> [10, 10, 10, 10],
                      ''a-pau.wav'' \<mapsto> [10, 10, 10, 10]]\<rparr> [''A'', ''A'', ''A''] None True)
       = Inr ([10, 10, 5, 2, 2, 2, 2, 5, 10, 10], [0, 2, 2, 0], [2, 2])
   \<and> ramped_overlap [''pau-a.wav'' \<mapsto> [10, 10, 10, 10], ''a-a.wav'' \<mapsto> [10, 10, 10, 10],
                      ''a-pau.wav'' \<mapsto> [10, 10, 10, 10]] ''a-a.wav'' ''a-a.wav'' 2 = [5, 5]
   \<and> map_sum id (\<lambda>(a, out, s). (data a, the (diphones s ''pau-pau.wav''),
          overlap_segment (diphones s) ''pau-pau.wav'' ''pau-a.wav'' 2))
       (synthesise \<lparr>wav_folder = ''diphones'', rate = 200,
          diphones = [''pau-pau.wav'' \<mapsto> [10, 10, 10], ''pau-a.wav'' \<mapsto> [10, 10, 10, 10],
                      ''a-pau.wav'' \<mapsto> [10, 10, 10, 10]]\<rparr> [''pau'', ''A'', ''pau''] None True)
       = Inr ([0, 2, 5, 5, 5, 5, 2, 0], [0, 2, 0], [2, 5])
   \<and> ramped_overlap [''pau-pau.wav'' \<mapsto> [10, 10, 10], ''pau-a.wav'' \<mapsto> [10, 10, 10, 10],
                      ''a-pau.wav'' \<mapsto> [10, 10, 10, 10]] ''pau-pau.wav'' ''pau-a.wav'' 2 = [5, 5]"
  by code_simp

end
